theory Spec2Isabelle
  imports Main "HOL-Library.Char_ord" "HOL-Library.List_Lexorder" "HOL-Library.AList"
begin

section \<open>Python values shared by the models\<close>

text \<open>
  Exceptions of the source become values. \<open>AssertionError\<close> is a failed \<open>assert\<close>,
  \<open>AttributeError\<close> a read of an attribute that no statement has assigned yet,
  \<open>KeyError\<close> a failed \<open>d[k]\<close>, \<open>IndexError\<close> an index or a dimension out of range,
  \<open>RuntimeError\<close> the error torch raises for a slice or a copy that does not fit.
\<close>

datatype error = AssertionError | AttributeError | KeyError | IndexError | RuntimeError

text \<open>An attribute of an object that is assigned only by some methods.\<close>

datatype 'a slot = Absent | Present 'a

text \<open>
  A Python \<open>dict\<close> is an association list with distinct keys, in insertion order:
  \<open>d[k] = v\<close> is \<open>AList.update k v d\<close> (an existing key keeps its place, a new one is
  appended), \<open>d.get(k)\<close> is \<open>map_of d k\<close>, \<open>len(d)\<close> is \<open>length d\<close>.
\<close>

type_synonym ('k, 'v) dict = "('k \<times> 'v) list"

definition keys :: "('k, 'v) dict \<Rightarrow> 'k set" where
  "keys d = fst ` set d"

definition values_of :: "('k, 'v) dict \<Rightarrow> 'v set" where
  "values_of d = snd ` set d"

text \<open>Python's slices \<open>xs[:k]\<close> and \<open>xs[k:]\<close>; \<open>None\<close> is the missing bound and a
  negative bound counts from the end.\<close>

definition slice_to :: "int option \<Rightarrow> 'a list \<Rightarrow> 'a list" where
  "slice_to k xs = (case k of None \<Rightarrow> xs
     | Some i \<Rightarrow> if i < 0 then take (nat (int (length xs) + i)) xs else take (nat i) xs)"

definition slice_from :: "int option \<Rightarrow> 'a list \<Rightarrow> 'a list" where
  "slice_from k xs = (case k of None \<Rightarrow> xs
     | Some i \<Rightarrow> if i < 0 then drop (nat (int (length xs) + i)) xs else drop (nat i) xs)"

text \<open>\<open>str(i)\<close> for an integer: decimal digits, with a minus sign when negative.\<close>

definition digit_char :: "nat \<Rightarrow> char" where
  "digit_char d = ''0123456789'' ! d"

function str_nat :: "nat \<Rightarrow> string" where
  "str_nat n = (if n < 10 then [digit_char n] else str_nat (n div 10) @ [digit_char (n mod 10)])"
  by pat_completeness auto
termination
  by (relation "measure id") auto

declare str_nat.simps [simp del]

definition str_int :: "int \<Rightarrow> string" where
  "str_int i = (if i < 0 then CHR ''-'' # str_nat (nat (- i)) else str_nat (nat i))"

section \<open>WordVocabulary (vocabulary.py)\<close>

text \<open>
  An index is a Python \<open>Optional[int]\<close>: \<open>_process_word\<close> returns \<open>words.get(w, _unk_index)\<close>,
  and \<open>_unk_index\<close> is \<open>None\<close> when the vocabulary has no unknown token.
\<close>

type_synonym index = "int option"

record word_vocabulary =
  words :: "(string, int) dict"
  inv_words :: "(int, string) dict"
  unk_index :: "index slot"
  allow_any_word :: bool
  initialized :: bool
  split_punctuation :: bool

text \<open>A sentence is a raw string or a list of tokens (\<open>Union[str, List[str]]\<close>).\<close>

datatype sentence = Raw string | Tokens "string list"

text \<open>The argument and the result of \<open>__call__\<close>: \<open>None\<close>, a sentence, or a list of indices.
  The empty list of Python is \<open>Words (Tokens [])\<close> as well as \<open>Indices []\<close>.\<close>

datatype seq = NoneSeq | Words sentence | Indices "index list"

definition add_word :: "string \<Rightarrow> word_vocabulary \<Rightarrow> word_vocabulary" where
  "add_word w v =
     (let next_id = int (length (words v));
          v1 = v\<lparr>words := AList.update w next_id (words v)\<rparr>
      in v1\<lparr>inv_words := AList.update next_id w (inv_words v1)\<rparr>)"

definition add_set :: "string set \<Rightarrow> word_vocabulary \<Rightarrow> word_vocabulary" where
  "add_set ws v = fold add_word (sorted_list_of_set ws) v"

definition finalize :: "word_vocabulary \<Rightarrow> error + word_vocabulary" where
  "finalize v =
     (let unk = (case map_of (words v) ''<UNK>'' of
                   Some i \<Rightarrow> Some i
                 | None \<Rightarrow> map_of (words v) ''<unk>'');
          v1 = v\<lparr>unk_index := Present unk\<rparr>
      in if allow_any_word v1 \<and> unk = None then Inl AssertionError
         else Inr (v1\<lparr>initialized := True\<rparr>))"

definition process_word :: "word_vocabulary \<Rightarrow> string \<Rightarrow> error + index" where
  "process_word v w =
     (case unk_index v of
        Absent \<Rightarrow> Inl AttributeError
      | Present unk \<Rightarrow>
          (let res = (case map_of (words v) w of Some i \<Rightarrow> Some i | None \<Rightarrow> unk)
           in if res \<noteq> unk \<or> allow_any_word v then Inr res else Inl AssertionError))"

definition process_index :: "word_vocabulary \<Rightarrow> index \<Rightarrow> string" where
  "process_index v i =
     (case (case i of None \<Rightarrow> None | Some k \<Rightarrow> map_of (inv_words v) k) of
        None \<Rightarrow> ''<!INV: '' @ (case i of None \<Rightarrow> ''None'' | Some k \<Rightarrow> str_int k) @ ''!>''
      | Some res \<Rightarrow> res)"

text \<open>\<open>sentence.split(" ")\<close>: the pieces between single spaces, empty ones included.\<close>

fun split_space :: "string \<Rightarrow> string list" where
  "split_space [] = [[]]"
| "split_space (c # cs) =
     (if c = CHR '' '' then [] # split_space cs
      else (case split_space cs of [] \<Rightarrow> [[c]] | p # ps \<Rightarrow> (c # p) # ps))"

text \<open>
  \<open>split_sentence\<close>. The regular-expression engine is not part of the repository:
  \<open>findall\<close> stands for \<open>re.findall(r"\w+|[^\w\s]", _, re.UNICODE)\<close>.
\<close>

definition split_sentence ::
  "(string \<Rightarrow> string list) \<Rightarrow> word_vocabulary \<Rightarrow> sentence \<Rightarrow> string list" where
  "split_sentence findall v s =
     (case s of
        Tokens ws \<Rightarrow> ws
      | Raw str \<Rightarrow> if split_punctuation v then findall str
                   else filter (\<lambda>x. x \<noteq> []) (split_space str))"

text \<open>A list comprehension whose body may raise stops at the first exception.\<close>

fun map_err :: "('a \<Rightarrow> error + 'b) \<Rightarrow> 'a list \<Rightarrow> error + 'b list" where
  "map_err f [] = Inr []"
| "map_err f (x # xs) =
     (case f x of
        Inl e \<Rightarrow> Inl e
      | Inr y \<Rightarrow> (case map_err f xs of Inl e \<Rightarrow> Inl e | Inr ys \<Rightarrow> Inr (y # ys)))"

definition sentence_to_indices ::
  "(string \<Rightarrow> string list) \<Rightarrow> word_vocabulary \<Rightarrow> sentence \<Rightarrow> error + index list" where
  "sentence_to_indices findall v s =
     (if \<not> initialized v then Inl AssertionError
      else map_err (process_word v) (split_sentence findall v s))"

definition indices_to_sentence :: "word_vocabulary \<Rightarrow> index list \<Rightarrow> error + string list" where
  "indices_to_sentence v is =
     (if \<not> initialized v then Inl AssertionError
      else Inr (map (process_index v) is))"

definition call_word ::
  "(string \<Rightarrow> string list) \<Rightarrow> word_vocabulary \<Rightarrow> seq \<Rightarrow> error + seq" where
  "call_word findall v sq =
     (case sq of
        NoneSeq \<Rightarrow> Inr sq
      | Words (Tokens []) \<Rightarrow> Inr sq
      | Indices [] \<Rightarrow> Inr sq
      | Words s \<Rightarrow> (case sentence_to_indices findall v s of
                      Inl e \<Rightarrow> Inl e | Inr is \<Rightarrow> Inr (Indices is))
      | Indices is \<Rightarrow> (case indices_to_sentence v is of
                      Inl e \<Rightarrow> Inl e | Inr ws \<Rightarrow> Inr (Words (Tokens ws))))"

text \<open>\<open>__init__\<close>: the padding token first, then the corpus when there is one.\<close>

definition WordVocabulary ::
  "(string \<Rightarrow> string list) \<Rightarrow> sentence list option \<Rightarrow> bool \<Rightarrow> bool \<Rightarrow> error + word_vocabulary" where
  "WordVocabulary findall list_of_sentences allow split =
     (let v0 = add_word ''<pad>''
                 \<lparr>words = [], inv_words = [], unk_index = Absent, allow_any_word = allow,
                  initialized = False, split_punctuation = split\<rparr>
      in case list_of_sentences of
           None \<Rightarrow> Inr v0
         | Some ss \<Rightarrow>
             finalize (add_set (fold (\<lambda>s ws. ws \<union> set (split_sentence findall v0 s)) ss {}) v0))"

text \<open>\<open>__add__\<close>: a fresh vocabulary, then every key of both operands.\<close>

definition add_vocab ::
  "(string \<Rightarrow> string list) \<Rightarrow> word_vocabulary \<Rightarrow> word_vocabulary \<Rightarrow> error + word_vocabulary" where
  "add_vocab findall a b =
     (case WordVocabulary findall None (allow_any_word a \<and> allow_any_word b) (split_punctuation a) of
        Inl e \<Rightarrow> Inl e
      | Inr res \<Rightarrow> finalize (add_set (keys (words a) \<union> keys (words b)) res))"

definition len_word :: "word_vocabulary \<Rightarrow> nat" where
  "len_word v = length (words v)"

section \<open>CharVocabulary (vocabulary.py)\<close>

text \<open>
  The characters are of any ordered type \<open>'c\<close> (one-character strings, or the integers of
  \<open>ByteVocabulary\<close>); a text is a list of them. \<open>to_index\<close> and \<open>from_index\<close> exist only
  once \<open>from_set\<close> has run.
\<close>

record 'c char_vocabulary =
  initialized_c :: bool
  ignore_char :: "'c option"
  ignore_char_idx :: "int option"
  to_index :: "('c, int) dict slot"
  from_index :: "(int, 'c) dict slot"

text \<open>A dict comprehension over a list of pairs: a later pair overwrites an earlier one
  with the same key.\<close>

definition dict_of :: "('k \<times> 'v) list \<Rightarrow> ('k, 'v) dict" where
  "dict_of ps = fold (\<lambda>(k, v) d. AList.update k v d) ps []"

definition from_set :: "'c::linorder set \<Rightarrow> 'c char_vocabulary \<Rightarrow> 'c char_vocabulary" where
  "from_set chars v =
     (let cs = (case ignore_char v of
                  Some ig \<Rightarrow>
                    (let chars_noig = sorted_list_of_set (chars - {ig})
                     in slice_to (ignore_char_idx v) chars_noig @ [ig] @
                        slice_from (ignore_char_idx v) chars_noig)
                | None \<Rightarrow> sorted_list_of_set chars)
      in v\<lparr>to_index := Present (dict_of (map (\<lambda>(i, c). (c, int i)) (enumerate 0 cs))),
           from_index := Present (dict_of (map (\<lambda>(i, c). (int i, c)) (enumerate 0 cs))),
           initialized_c := True\<rparr>)"

definition CharVocabulary ::
  "'c::linorder set option \<Rightarrow> 'c option \<Rightarrow> int option \<Rightarrow> 'c char_vocabulary" where
  "CharVocabulary chars ig idx =
     (let v = \<lparr>initialized_c = False, ignore_char = ig, ignore_char_idx = idx,
               to_index = Absent, from_index = Absent\<rparr>
      in case chars of None \<Rightarrow> v | Some cs \<Rightarrow> from_set cs v)"

definition len_char :: "'c char_vocabulary \<Rightarrow> error + nat" where
  "len_char v = (case to_index v of Absent \<Rightarrow> Inl AttributeError | Present d \<Rightarrow> Inr (length d))"





text \<open>\<open>__add__\<close> builds an instance of the same class from the \<open>values()\<close> of the two
  \<open>to_index\<close> dicts, with the default \<open>ignore_char=None\<close> and \<open>ignore_char_idx=0\<close>.\<close>

definition add_char ::
  "'c char_vocabulary \<Rightarrow> 'd char_vocabulary \<Rightarrow> error + int char_vocabulary" where
  "add_char a b =
     (case to_index a of
        Absent \<Rightarrow> Inl AttributeError
      | Present da \<Rightarrow>
          (case to_index b of
             Absent \<Rightarrow> Inl AttributeError
           | Present db \<Rightarrow> Inr (CharVocabulary (Some (values_of da \<union> values_of db)) None (Some 0))))"

section \<open>VarLengthCollate (trainer/collate.py)\<close>

text \<open>
  A torch tensor is a view of a flat storage: an offset, the size of every dimension and
  the stride of every dimension. The element at a multi-index \<open>idx\<close> is the storage cell
  \<open>offset + \<Sum> idx[k] * strides[k]\<close>. \<open>narrow\<close> and \<open>squeeze\<close> return views of the same
  storage, and \<open>copy_\<close> through a view writes the cells of that storage.
\<close>

record 'a tensor =
  storage :: "'a list"
  offset :: nat
  sizes :: "nat list"
  strides :: "nat list"

fun lin :: "nat list \<Rightarrow> nat list \<Rightarrow> nat" where
  "lin (i # idx) (s # ss) = i * s + lin idx ss"
| "lin _ _ = 0"

definition at :: "'a tensor \<Rightarrow> nat list \<Rightarrow> 'a" where
  "at t idx = storage t ! (offset t + lin idx (strides t))"

text \<open>The strides of a contiguous tensor, as torch computes them; row-major.\<close>

fun contiguous :: "nat list \<Rightarrow> nat list" where
  "contiguous [] = []"
| "contiguous (n # ns) = prod_list (map (max 1) ns) # contiguous ns"

text \<open>A contiguous tensor of a given shape over given data (how the examples are built).\<close>

definition tensor_of :: "nat list \<Rightarrow> 'a list \<Rightarrow> 'a tensor" where
  "tensor_of shape xs = \<lparr>storage = xs, offset = 0, sizes = shape, strides = contiguous shape\<rparr>"

text \<open>All multi-indices of a shape, in row-major order.\<close>

fun indices :: "nat list \<Rightarrow> nat list list" where
  "indices [] = [[]]"
| "indices (n # ns) = concat (map (\<lambda>i. map ((#) i) (indices ns)) [0..<n])"

text \<open>A dimension argument of torch: negative dimensions count from the end.\<close>

definition wrap_dim :: "nat \<Rightarrow> int \<Rightarrow> nat option" where
  "wrap_dim rank dim =
     (if - int rank \<le> dim \<and> dim < int rank
      then Some (nat (if dim < 0 then dim + int rank else dim)) else None)"

text \<open>\<open>t.narrow(dim, start, length)\<close>: refused on a 0-dimensional tensor, for a dimension
  out of range and for a slice that does not fit.\<close>

definition narrow :: "'a tensor \<Rightarrow> int \<Rightarrow> nat \<Rightarrow> nat \<Rightarrow> error + 'a tensor" where
  "narrow t dim start len =
     (if sizes t = [] then Inl RuntimeError
      else case wrap_dim (length (sizes t)) dim of
             None \<Rightarrow> Inl IndexError
           | Some d \<Rightarrow>
               if start + len \<le> sizes t ! d
               then Inr (t\<lparr>offset := offset t + start * (strides t ! d),
                           sizes := (sizes t)[d := len]\<rparr>)
               else Inl RuntimeError)"

text \<open>\<open>t.squeeze(dim)\<close>: drops the dimension when its size is 1.\<close>

definition squeeze :: "'a tensor \<Rightarrow> int \<Rightarrow> error + 'a tensor" where
  "squeeze t dim =
     (case wrap_dim (max 1 (length (sizes t))) dim of
        None \<Rightarrow> Inl IndexError
      | Some d \<Rightarrow>
          if d < length (sizes t) \<and> sizes t ! d = 1
          then Inr (t\<lparr>sizes := take d (sizes t) @ drop (Suc d) (sizes t),
                      strides := take d (strides t) @ drop (Suc d) (strides t)\<rparr>)
          else Inr t)"

text \<open>
  \<open>dst.copy_(src)\<close>, here \<open>copy_into dst src\<close>: \<open>src\<close> is broadcast to the shape of \<open>dst\<close> (trailing dimensions
  aligned, a dimension of size 1 repeated), and every cell of the view is written.
\<close>

definition broadcastable :: "nat list \<Rightarrow> nat list \<Rightarrow> bool" where
  "broadcastable src dst \<longleftrightarrow>
     length src \<le> length dst \<and>
     list_all2 (\<lambda>s d. s = d \<or> s = 1) src (drop (length dst - length src) dst)"

definition broadcast_index :: "nat list \<Rightarrow> nat list \<Rightarrow> nat list" where
  "broadcast_index src idx =
     map2 (\<lambda>s i. if s = 1 then 0 else i) src (drop (length idx - length src) idx)"

definition copy_into :: "'a tensor \<Rightarrow> 'a tensor \<Rightarrow> error + 'a tensor" where
  "copy_into dst src =
     (if \<not> broadcastable (sizes src) (sizes dst) then Inl RuntimeError
      else Inr (dst\<lparr>storage :=
             fold (\<lambda>idx st. st[offset dst + lin idx (strides dst)
                                 := at src (broadcast_index (sizes src) idx)])
               (indices (sizes dst)) (storage dst)\<rparr>))"

text \<open>\<open>_measure_array_max_dim\<close>: the running maximum of every dimension and whether a
  size differed from it. \<open>ns[j]\<close> raises when an element has fewer dimensions than the first.\<close>

definition measure_step ::
  "nat list \<times> bool list \<Rightarrow> nat list \<Rightarrow> error + nat list \<times> bool list" where
  "measure_step acc ns =
     (case acc of (s, different) \<Rightarrow>
        if length ns < length s then Inl IndexError
        else Inr (map (\<lambda>j. max (s ! j) (ns ! j)) [0..<length s],
                  map (\<lambda>j. different ! j \<or> s ! j \<noteq> ns ! j) [0..<length s]))"

fun measure_loop ::
  "nat list \<times> bool list \<Rightarrow> 'a tensor list \<Rightarrow> error + nat list \<times> bool list" where
  "measure_loop acc [] = Inr acc"
| "measure_loop acc (t # ts) =
     (case measure_step acc (sizes t) of
        Inl e \<Rightarrow> Inl e
      | Inr acc' \<Rightarrow> measure_loop acc' ts)"

definition measure_array_max_dim :: "'a tensor list \<Rightarrow> error + nat list \<times> bool list" where
  "measure_array_max_dim batch =
     (case batch of
        [] \<Rightarrow> Inl IndexError
      | b0 # rest \<Rightarrow> measure_loop (sizes b0, replicate (length (sizes b0)) False) rest)"

text \<open>The inner loop of \<open>_merge_var_len_array\<close>: narrow every dimension marked as different
  to the size the element has there.\<close>

fun narrow_different :: "'a tensor \<Rightarrow> 'a tensor \<Rightarrow> (nat \<times> bool) list \<Rightarrow> error + 'a tensor" where
  "narrow_different this_o d [] = Inr this_o"
| "narrow_different this_o d ((j, diff) # rest) =
     (if diff
      then (if j < length (sizes d)
            then (case narrow this_o (int j) 0 (sizes d ! j) of
                    Inl e \<Rightarrow> Inl e
                  | Inr t \<Rightarrow> narrow_different t d rest)
            else Inl IndexError)
      else narrow_different this_o d rest)"

text \<open>\<open>bdim = self.batch_dim if len(out.shape) > self.batch_dim else 0\<close>\<close>

definition slice_dim :: "int \<Rightarrow> 'a tensor \<Rightarrow> int" where
  "slice_dim batch_dim out = (if int (length (sizes out)) > batch_dim then batch_dim else 0)"

text \<open>One round of the outer loop: the view of element \<open>i\<close> in \<open>out\<close>, narrowed, then the
  copy, which writes the storage of \<open>out\<close>.\<close>

definition merge_step ::
  "int \<Rightarrow> bool list \<Rightarrow> 'a tensor \<Rightarrow> nat \<times> 'a tensor \<Rightarrow> error + 'a tensor" where
  "merge_step batch_dim different out p =
     (case p of (i, d) \<Rightarrow>
        let bdim = slice_dim batch_dim out in
        case narrow out bdim i 1 of
          Inl e \<Rightarrow> Inl e
        | Inr v \<Rightarrow>
            (case squeeze v bdim of
               Inl e \<Rightarrow> Inl e
             | Inr this_o \<Rightarrow>
                 (case narrow_different this_o d (enumerate 0 different) of
                    Inl e \<Rightarrow> Inl e
                  | Inr this_o' \<Rightarrow>
                      (case copy_into this_o' d of
                         Inl e \<Rightarrow> Inl e
                       | Inr w \<Rightarrow> Inr (out\<lparr>storage := storage w\<rparr>)))))"

fun merge_loop ::
  "int \<Rightarrow> bool list \<Rightarrow> 'a tensor \<Rightarrow> (nat \<times> 'a tensor) list \<Rightarrow> error + 'a tensor" where
  "merge_loop batch_dim different out [] = Inr out"
| "merge_loop batch_dim different out (p # rest) =
     (case merge_step batch_dim different out p of
        Inl e \<Rightarrow> Inl e
      | Inr out' \<Rightarrow> merge_loop batch_dim different out' rest)"

text \<open>The shape of the output and the freshly allocated output filled with the padding
  value (\<open>ignore_symbol\<close>, or 0 when it is \<open>None\<close>).\<close>

definition out_shape :: "int \<Rightarrow> nat \<Rightarrow> nat list \<Rightarrow> nat list" where
  "out_shape batch_dim n max_size =
     slice_to (Some batch_dim) max_size @ [n] @ slice_from (Some batch_dim) max_size"

definition new_out :: "'a::zero option \<Rightarrow> nat list \<Rightarrow> 'a tensor" where
  "new_out ignore_symbol s =
     \<lparr>storage = replicate (prod_list s) (case ignore_symbol of Some p \<Rightarrow> p | None \<Rightarrow> 0),
      offset = 0, sizes = s, strides = contiguous s\<rparr>"

definition merge_var_len_array ::
  "int \<Rightarrow> 'a::zero option \<Rightarrow> 'a tensor list \<Rightarrow> error + 'a tensor" where
  "merge_var_len_array batch_dim ignore_symbol batch =
     (case measure_array_max_dim batch of
        Inl e \<Rightarrow> Inl e
      | Inr (max_size, different) \<Rightarrow>
          merge_loop batch_dim different
            (new_out ignore_symbol (out_shape batch_dim (length batch) max_size))
            (enumerate 0 batch))"

section \<open>Properties of the vocabularies\<close>

subsection \<open>Dicts\<close>


lemma map_of_fold_update:
  "map_of (fold (\<lambda>(k, v) d. AList.update k v d) ps d) = map_of d ++ map_of (rev ps)"
proof (induction ps arbitrary: d)
  case Nil
  show ?case by simp
next
  case (Cons p ps)
  obtain k v where p: "p = (k, v)" by (cases p)
  have "map_of (fold (\<lambda>(k, v) d. AList.update k v d) (p # ps) d)
        = map_of (AList.update k v d) ++ map_of (rev ps)"
    using Cons.IH [of "AList.update k v d"] by (simp add: p)
  also have "\<dots> = map_of d ++ map_of (rev (p # ps))"
    by (simp add: p AList.update_conv')
  finally show ?case .
qed

lemma map_of_dict_of: "map_of (dict_of ps) = map_of (rev ps)"
  by (simp add: dict_of_def map_of_fold_update)

lemma keys_dict_of: "keys (dict_of ps) = fst ` set ps"
proof -
  have "dom (map_of (dict_of ps)) = dom (map_of (rev ps))"
    by (simp add: map_of_dict_of)
  then show ?thesis by (simp add: dom_map_of_conv_image_fst keys_def)
qed



lemma dict_of_lookup_key: "k \<in> fst ` set ps \<Longrightarrow> \<exists>v. map_of (dict_of ps) k = Some v"
proof -
  assume "k \<in> fst ` set ps"
  then have "map_of (rev ps) k \<noteq> None"
    by (simp add: map_of_eq_None_iff)
  then show ?thesis by (auto simp: map_of_dict_of)
qed

subsection \<open>Enumerated characters\<close>





subsection \<open>Word tables\<close>


lemma add_word_fields [simp]:
  "allow_any_word (add_word w v) = allow_any_word v"
  "initialized (add_word w v) = initialized v"
  "split_punctuation (add_word w v) = split_punctuation v"
  "unk_index (add_word w v) = unk_index v"
  by (simp_all add: add_word_def Let_def)


lemma fold_add_word_fields [simp]:
  "allow_any_word (fold add_word xs v) = allow_any_word v"
  "initialized (fold add_word xs v) = initialized v"
  "split_punctuation (fold add_word xs v) = split_punctuation v"
  "unk_index (fold add_word xs v) = unk_index v"
  by (induction xs arbitrary: v) simp_all

lemma finalize_fields:
  assumes "finalize v0 = Inr v"
  shows "words v = words v0" and "inv_words v = inv_words v0" and "initialized v"
    and "allow_any_word v = allow_any_word v0"
    and "split_punctuation v = split_punctuation v0"
    and "unk_index v = Present (case map_of (words v0) ''<UNK>'' of
                                   Some i \<Rightarrow> Some i | None \<Rightarrow> map_of (words v0) ''<unk>'')"
    and "allow_any_word v \<Longrightarrow> unk_index v \<noteq> Present None"
  using assms by (auto simp: finalize_def Let_def split: if_splits)









subsection \<open>Character tables\<close>



lemma from_set_fields [simp]:
  "ignore_char (from_set chars v) = ignore_char v"
  "ignore_char_idx (from_set chars v) = ignore_char_idx v"
  "initialized_c (from_set chars v) = True"
  by (simp_all add: from_set_def Let_def)



subsection \<open>Calling a vocabulary on nothing\<close>

text \<open>
  C9. \<open>__call__\<close> on \<open>None\<close> or on an empty list returns its argument as it is, whatever the
  state of the vocabulary: no field is read, so a vocabulary that was never finalized or
  loaded (\<open>initialized\<close> false, \<open>_unk_index\<close> not assigned) returns it too.
\<close>

theorem call_word_nothing:
  "call_word findall v NoneSeq = Inr NoneSeq \<and>
   call_word findall v (Words (Tokens [])) = Inr (Words (Tokens [])) \<and>
   call_word findall v (Indices []) = Inr (Indices [])"
  by (simp add: call_word_def)

subsection \<open>Decoding an index\<close>



subsection \<open>Encoding a word\<close>

text \<open>
  C5, as the code has it. After \<open>finalize\<close>, a word that is present encodes to its index,
  unless that index is the unknown index and \<open>allow_any_word\<close> is off, where the assertion
  fails; a word that is absent fails exactly when \<open>allow_any_word\<close> is off, whether or not
  an unknown token exists, and returns the unknown index otherwise (then not \<open>None\<close>).
\<close>

theorem encode_word_finalized:
  assumes "finalize v0 = Inr v"
  shows "\<exists>unk. unk_index v = Present unk \<and> (allow_any_word v \<longrightarrow> unk \<noteq> None) \<and>
     (\<forall>i. map_of (words v) w = Some i \<longrightarrow>
        process_word v w = (if Some i = unk \<and> \<not> allow_any_word v then Inl AssertionError
                            else Inr (Some i))) \<and>
     (map_of (words v) w = None \<longrightarrow>
        process_word v w = (if allow_any_word v then Inr unk else Inl AssertionError))"
  using finalize_fields(6,7) [OF assms]
  by (auto simp: process_word_def Let_def)

text \<open>The theorem at a vocabulary with an unknown token and \<open>allow_any_word\<close> on.\<close>

theorem encode_word_finalized_witness:
  "finalize \<lparr>words = [(''<pad>'', 0), (''<unk>'', 1), (''a'', 2)],
             inv_words = [(0, ''<pad>''), (1, ''<unk>''), (2, ''a'')],
             unk_index = Absent, allow_any_word = True,
             initialized = False, split_punctuation = True\<rparr>
   = Inr \<lparr>words = [(''<pad>'', 0), (''<unk>'', 1), (''a'', 2)],
             inv_words = [(0, ''<pad>''), (1, ''<unk>''), (2, ''a'')],
             unk_index = Present (Some 1), allow_any_word = True,
             initialized = True, split_punctuation = True\<rparr> \<and>
   process_word \<lparr>words = [(''<pad>'', 0), (''<unk>'', 1), (''a'', 2)],
             inv_words = [(0, ''<pad>''), (1, ''<unk>''), (2, ''a'')],
             unk_index = Present (Some 1), allow_any_word = True,
             initialized = True, split_punctuation = True\<rparr> ''zzz'' = Inr (Some 1)"
proof -
  have fin: "finalize \<lparr>words = [(''<pad>'', 0), (''<unk>'', 1), (''a'', 2)],
             inv_words = [(0, ''<pad>''), (1, ''<unk>''), (2, ''a'')],
             unk_index = Absent, allow_any_word = True,
             initialized = False, split_punctuation = True\<rparr>
   = Inr \<lparr>words = [(''<pad>'', 0), (''<unk>'', 1), (''a'', 2)],
             inv_words = [(0, ''<pad>''), (1, ''<unk>''), (2, ''a'')],
             unk_index = Present (Some 1), allow_any_word = True,
             initialized = True, split_punctuation = True\<rparr>"
    by (simp add: finalize_def)
  show ?thesis
    using fin encode_word_finalized [OF fin, of "''zzz''"] by simp
qed

text \<open>
  The claim as worded fails on the vocabulary of the corpus \<open>[["<unk>", "a"]]\<close> with
  \<open>allow_any_word\<close> off: the unknown token exists (index 1), yet the absent word \<open>zzz\<close>
  fails, and so does the present word \<open><unk>\<close>.
\<close>

theorem encode_unknown_counterexample:
  "WordVocabulary (\<lambda>s. []) (Some [Tokens [''<unk>'', ''a'']]) False True
     = Inr \<lparr>words = [(''<pad>'', 0), (''<unk>'', 1), (''a'', 2)],
             inv_words = [(0, ''<pad>''), (1, ''<unk>''), (2, ''a'')],
             unk_index = Present (Some 1), allow_any_word = False,
             initialized = True, split_punctuation = True\<rparr> \<and>
   map_of (words \<lparr>words = [(''<pad>'', 0), (''<unk>'', 1), (''a'', 2)],
             inv_words = [(0, ''<pad>''), (1, ''<unk>''), (2, ''a'')],
             unk_index = Present (Some 1), allow_any_word = False,
             initialized = True, split_punctuation = True\<rparr>) ''zzz'' = None \<and>
   \<not> (process_word \<lparr>words = [(''<pad>'', 0), (''<unk>'', 1), (''a'', 2)],
             inv_words = [(0, ''<pad>''), (1, ''<unk>''), (2, ''a'')],
             unk_index = Present (Some 1), allow_any_word = False,
             initialized = True, split_punctuation = True\<rparr> ''zzz'' = Inl AssertionError
      \<longleftrightarrow> unk_index \<lparr>words = [(''<pad>'', 0), (''<unk>'', 1), (''a'', 2)],
             inv_words = [(0, ''<pad>''), (1, ''<unk>''), (2, ''a'')],
             unk_index = Present (Some 1), allow_any_word = False,
             initialized = True, split_punctuation = True\<rparr> = Present None \<and>
          \<not> allow_any_word \<lparr>words = [(''<pad>'', 0), (''<unk>'', 1), (''a'', 2)],
             inv_words = [(0, ''<pad>''), (1, ''<unk>''), (2, ''a'')],
             unk_index = Present (Some 1), allow_any_word = False,
             initialized = True, split_punctuation = True\<rparr>) \<and>
   map_of (words \<lparr>words = [(''<pad>'', 0), (''<unk>'', 1), (''a'', 2)],
             inv_words = [(0, ''<pad>''), (1, ''<unk>''), (2, ''a'')],
             unk_index = Present (Some 1), allow_any_word = False,
             initialized = True, split_punctuation = True\<rparr>) ''<unk>'' = Some 1 \<and>
   process_word \<lparr>words = [(''<pad>'', 0), (''<unk>'', 1), (''a'', 2)],
             inv_words = [(0, ''<pad>''), (1, ''<unk>''), (2, ''a'')],
             unk_index = Present (Some 1), allow_any_word = False,
             initialized = True, split_punctuation = True\<rparr> ''<unk>'' = Inl AssertionError"
  by (simp add: WordVocabulary_def add_word_def add_set_def finalize_def split_sentence_def
      sorted_list_of_set_sort_remdups process_word_def)

subsection \<open>The padding token under union\<close>

text \<open>
  C4 at the union of the vocabularies of \<open>[["a", "b"]]\<close> and \<open>[["b", "c"]]\<close>. Both map
  \<open><pad>\<close> to 0. The union adds the keys of both, \<open><pad>\<close> among them, to a fresh vocabulary
  that already holds \<open><pad>\<close>: adding it again assigns it \<open>len(words) = 1\<close>, the index the
  next word receives as well.
\<close>

theorem union_moves_pad:
  "WordVocabulary findall (Some [Tokens [''a'', ''b'']]) False True
     = Inr \<lparr>words = [(''<pad>'', 0), (''a'', 1), (''b'', 2)],
             inv_words = [(0, ''<pad>''), (1, ''a''), (2, ''b'')],
             unk_index = Present None, allow_any_word = False,
             initialized = True, split_punctuation = True\<rparr> \<and>
   WordVocabulary findall (Some [Tokens [''b'', ''c'']]) False True
     = Inr \<lparr>words = [(''<pad>'', 0), (''b'', 1), (''c'', 2)],
             inv_words = [(0, ''<pad>''), (1, ''b''), (2, ''c'')],
             unk_index = Present None, allow_any_word = False,
             initialized = True, split_punctuation = True\<rparr> \<and>
   add_vocab findall
      \<lparr>words = [(''<pad>'', 0), (''a'', 1), (''b'', 2)],
             inv_words = [(0, ''<pad>''), (1, ''a''), (2, ''b'')],
             unk_index = Present None, allow_any_word = False,
             initialized = True, split_punctuation = True\<rparr>
      \<lparr>words = [(''<pad>'', 0), (''b'', 1), (''c'', 2)],
             inv_words = [(0, ''<pad>''), (1, ''b''), (2, ''c'')],
             unk_index = Present None, allow_any_word = False,
             initialized = True, split_punctuation = True\<rparr>
     = Inr \<lparr>words = [(''<pad>'', 1), (''a'', 1), (''b'', 2), (''c'', 3)],
             inv_words = [(0, ''<pad>''), (1, ''a''), (2, ''b''), (3, ''c'')],
             unk_index = Present None, allow_any_word = False,
             initialized = True, split_punctuation = True\<rparr> \<and>
   process_word \<lparr>words = [(''<pad>'', 1), (''a'', 1), (''b'', 2), (''c'', 3)],
             inv_words = [(0, ''<pad>''), (1, ''a''), (2, ''b''), (3, ''c'')],
             unk_index = Present None, allow_any_word = False,
             initialized = True, split_punctuation = True\<rparr> ''<pad>'' = Inr (Some 1)"
  by (simp add: WordVocabulary_def add_vocab_def add_word_def add_set_def finalize_def
      split_sentence_def keys_def sorted_list_of_set_sort_remdups process_word_def
      insert_commute)

text \<open>The same at a tokenizer that finds nothing: \<open><pad>\<close> encodes to 1.\<close>

theorem union_moves_pad_witness:
  "process_word \<lparr>words = [(''<pad>'', 1), (''a'', 1), (''b'', 2), (''c'', 3)],
             inv_words = [(0, ''<pad>''), (1, ''a''), (2, ''b''), (3, ''c'')],
             unk_index = Present None, allow_any_word = False,
             initialized = True, split_punctuation = True\<rparr> ''<pad>'' = Inr (Some 1)"
  using union_moves_pad [of "\<lambda>s. []"] by simp

subsection \<open>Union of character vocabularies\<close>

text \<open>
  C3 at \<open>CharVocabulary({"a", "b"}) + CharVocabulary({"c"})\<close>, and at a vocabulary of the
  integers 104 and 105 added to itself: the alphabet of the sum is the set of indices
  \<open>{0, 1}\<close>, not the characters of the operands.
\<close>

theorem add_char_keeps_indices:
  "add_char (CharVocabulary (Some {CHR ''a'', CHR ''b''}) None (Some 0))
            (CharVocabulary (Some {CHR ''c''}) None (Some 0))
     = Inr \<lparr>initialized_c = True, ignore_char = None, ignore_char_idx = Some 0,
             to_index = Present [(0, 0), (1, 1)], from_index = Present [(0, 0), (1, 1)]\<rparr> \<and>
   to_index (CharVocabulary (Some {104, 105 :: int}) None (Some 0))
     = Present [(104, 0), (105, 1)] \<and>
   add_char (CharVocabulary (Some {104, 105 :: int}) None (Some 0))
            (CharVocabulary (Some {104, 105 :: int}) None (Some 0))
     = Inr \<lparr>initialized_c = True, ignore_char = None, ignore_char_idx = Some 0,
             to_index = Present [(0, 0), (1, 1)], from_index = Present [(0, 0), (1, 1)]\<rparr>"
  by code_simp

subsection \<open>Snapshots of a character vocabulary\<close>



subsection \<open>Encoding and decoding again\<close>




section \<open>Properties of the collation\<close>

subsection \<open>Row-major indexing\<close>

lemma prod_max_in_bounds:
  "list_all2 (<) idx (ns :: nat list) \<Longrightarrow> prod_list (map (max 1) ns) = prod_list ns"
proof (induction rule: list_all2_induct)
  case Nil
  show ?case by simp
next
  case (Cons i idx n ns)
  from Cons.hyps(1) have "1 \<le> n" by linarith
  then have "max 1 n = n" by (rule max_absorb2)
  with Cons.IH show ?case by (simp del: One_nat_def)
qed

lemma lin_contiguous_less:
  "list_all2 (<) idx ns \<Longrightarrow> lin idx (contiguous ns) < prod_list ns"
proof (induction rule: list_all2_induct)
  case Nil
  show ?case by simp
next
  case (Cons i idx n ns)
  let ?P = "prod_list ns"
  have P: "prod_list (map (max 1) ns) = ?P"
    by (rule prod_max_in_bounds [OF Cons.hyps(2)])
  have "i * ?P + lin idx (contiguous ns) < Suc i * ?P"
    using Cons.IH by simp
  also have "\<dots> \<le> n * ?P"
    using Cons.hyps(1) by (simp add: Suc_leI mult_le_mono1 del: mult_Suc)
  finally have "i * ?P + lin idx (contiguous ns) < n * ?P" .
  then show ?case unfolding contiguous.simps lin.simps P prod_list.Cons .
qed

lemma lin_contiguous_inj:
  "list_all2 (<) idx ns \<Longrightarrow> list_all2 (<) idx' ns \<Longrightarrow>
   lin idx (contiguous ns) = lin idx' (contiguous ns) \<Longrightarrow> idx = idx'"
proof (induction ns arbitrary: idx idx')
  case Nil
  then show ?case by simp
next
  case (Cons n ns)
  from Cons.prems(1) obtain i js where idx: "idx = i # js" and b: "list_all2 (<) js ns"
    by (auto simp: list_all2_Cons2)
  from Cons.prems(2) obtain i' js' where idx': "idx' = i' # js'" and b': "list_all2 (<) js' ns"
    by (auto simp: list_all2_Cons2)
  let ?P = "prod_list ns"
  have P: "prod_list (map (max 1) ns) = ?P"
    by (rule prod_max_in_bounds [OF b])
  have l: "lin js (contiguous ns) < ?P" and l': "lin js' (contiguous ns) < ?P"
    using b b' by (simp_all add: lin_contiguous_less)
  have eq: "i * ?P + lin js (contiguous ns) = i' * ?P + lin js' (contiguous ns)"
    using Cons.prems(3) unfolding idx idx' contiguous.simps lin.simps P .
  have "(i * ?P + lin js (contiguous ns)) div ?P = i"
    using l by simp
  moreover have "(i' * ?P + lin js' (contiguous ns)) div ?P = i'"
    using l' by simp
  ultimately have ii: "i = i'" using eq by simp
  with eq have "lin js (contiguous ns) = lin js' (contiguous ns)" by simp
  with Cons.IH [OF b b'] have "js = js'" by simp
  with ii show ?case by (simp add: idx idx')
qed

lemma set_indices: "set (indices ns) = {idx. list_all2 (<) idx ns}"
proof (induction ns)
  case Nil
  show ?case by auto
next
  case (Cons n ns)
  show ?case
  proof (intro set_eqI iffI)
    fix idx
    assume "idx \<in> set (indices (n # ns))"
    then obtain i js where "i < n" "js \<in> set (indices ns)" "idx = i # js"
      by auto
    then show "idx \<in> {idx. list_all2 (<) idx (n # ns)}"
      using Cons.IH by simp
  next
    fix idx
    assume "idx \<in> {idx. list_all2 (<) idx (n # ns)}"
    then obtain i js where "idx = i # js" "i < n" "list_all2 (<) js ns"
      by (auto simp: list_all2_Cons2)
    then show "idx \<in> set (indices (n # ns))"
      using Cons.IH by auto
  qed
qed

lemma lin_insert:
  "b \<le> length idx \<Longrightarrow> length ss = Suc (length idx) \<Longrightarrow>
   lin (take b idx @ [i] @ drop b idx) ss = i * (ss ! b) + lin idx (take b ss @ drop (Suc b) ss)"
proof (induction b arbitrary: idx ss)
  case 0
  then obtain s ss' where "ss = s # ss'" by (cases ss) auto
  then show ?case by simp
next
  case (Suc b)
  from Suc.prems obtain j idx' where idx: "idx = j # idx'" by (cases idx) auto
  from Suc.prems obtain s ss' where ss: "ss = s # ss'" by (cases ss) auto
  have "lin (take b idx' @ [i] @ drop b idx') ss'
        = i * (ss' ! b) + lin idx' (take b ss' @ drop (Suc b) ss')"
    using Suc.IH [of idx' ss'] Suc.prems by (simp add: idx ss)
  then show ?case by (simp add: idx ss)
qed

lemma insert_index_inj:
  "b \<le> length idx \<Longrightarrow> b \<le> length idx' \<Longrightarrow>
   take b idx @ [i] @ drop b idx = take b idx' @ [i'] @ drop b idx' \<Longrightarrow> i = i' \<and> idx = idx'"
proof -
  assume b: "b \<le> length idx" "b \<le> length idx'"
    and eq: "take b idx @ [i] @ drop b idx = take b idx' @ [i'] @ drop b idx'"
  have len: "length (take b idx) = length (take b idx')" using b by simp
  from eq len have "take b idx = take b idx'" and "[i] @ drop b idx = [i'] @ drop b idx'"
    by (simp_all add: append_eq_append_conv)
  then have "i = i'" and "take b idx @ drop b idx = take b idx' @ drop b idx'"
    by simp_all
  then show ?thesis by simp
qed

lemma insert_index_bounds:
  "b \<le> length ms \<Longrightarrow> i < n \<Longrightarrow> list_all2 (<) idx (ms :: nat list) \<Longrightarrow>
   list_all2 (<) (take b idx @ [i] @ drop b idx) (take b ms @ [n] @ drop b ms)"
  by (auto intro!: list_all2_appendI list_all2_takeI list_all2_dropI)

subsection \<open>Writing a list of cells\<close>

lemma fold_update_length [simp]:
  "length (fold (\<lambda>x st. st[f x := g x]) xs st) = length st"
  by (induction xs arbitrary: st) simp_all

lemma fold_update_other:
  "p \<notin> f ` set xs \<Longrightarrow> fold (\<lambda>x st. st[f x := g x]) xs st ! p = st ! p"
  by (induction xs arbitrary: st) auto

lemma fold_update_hit:
  "inj_on f (set xs) \<Longrightarrow> x \<in> set xs \<Longrightarrow> f x < length st \<Longrightarrow>
   fold (\<lambda>x st. st[f x := g x]) xs st ! f x = g x"
proof (induction xs arbitrary: st)
  case Nil
  then show ?case by simp
next
  case (Cons y ys)
  have inj: "inj_on f (set ys)" using Cons.prems(1) by (simp add: inj_on_def)
  show ?case
  proof (cases "x \<in> set ys")
    case True
    then show ?thesis using Cons.IH [OF inj True] Cons.prems(3) by simp
  next
    case False
    with Cons.prems(2) have xy: "x = y" by simp
    have "f x \<notin> f ` set ys"
    proof
      assume "f x \<in> f ` set ys"
      then obtain z where "z \<in> set ys" "f z = f x" by auto
      with Cons.prems(1) xy have "z = x" by (auto simp: inj_on_def)
      with \<open>z \<in> set ys\<close> False show False by simp
    qed
    then show ?thesis
      using fold_update_other [of "f x" f ys g "st[f y := g y]"] Cons.prems(3) xy by simp
  qed
qed

subsection \<open>Measuring the batch\<close>

lemma measure_loop_props:
  assumes "\<forall>t\<in>set ts. length (sizes t) = r" and "length s = r" and "length df = r"
  shows "\<exists>ms diff. measure_loop (s, df) ts = Inr (ms, diff) \<and> length ms = r \<and> length diff = r \<and>
    (\<forall>j<r. s ! j \<le> ms ! j \<and> (\<forall>t\<in>set ts. sizes t ! j \<le> ms ! j) \<and>
            (ms ! j = s ! j \<or> (\<exists>t\<in>set ts. ms ! j = sizes t ! j)) \<and>
            (\<not> diff ! j \<longrightarrow> \<not> df ! j \<and> s ! j = ms ! j \<and> (\<forall>t\<in>set ts. sizes t ! j = ms ! j)))"
  using assms
proof (induction ts arbitrary: s df)
  case Nil
  then show ?case by simp
next
  case (Cons t ts)
  let ?ns = "sizes t"
  let ?s' = "map (\<lambda>j. max (s ! j) (?ns ! j)) [0..<length s]"
  let ?df' = "map (\<lambda>j. df ! j \<or> s ! j \<noteq> ?ns ! j) [0..<length s]"
  have rank: "length ?ns = r" using Cons.prems(1) by simp
  have step: "measure_step (s, df) ?ns = Inr (?s', ?df')"
    using rank Cons.prems(2) by (simp add: measure_step_def)
  have "\<forall>t\<in>set ts. length (sizes t) = r" using Cons.prems(1) by simp
  moreover have "length ?s' = r" "length ?df' = r" using Cons.prems(2) by simp_all
  ultimately obtain ms diff where res: "measure_loop (?s', ?df') ts = Inr (ms, diff)"
    and len: "length ms = r" "length diff = r"
    and props: "\<forall>j<r. ?s' ! j \<le> ms ! j \<and> (\<forall>t\<in>set ts. sizes t ! j \<le> ms ! j) \<and>
            (ms ! j = ?s' ! j \<or> (\<exists>t\<in>set ts. ms ! j = sizes t ! j)) \<and>
            (\<not> diff ! j \<longrightarrow> \<not> ?df' ! j \<and> ?s' ! j = ms ! j \<and> (\<forall>t\<in>set ts. sizes t ! j = ms ! j))"
    using Cons.IH [of ?s' ?df'] by blast
  have run: "measure_loop (s, df) (t # ts) = Inr (ms, diff)"
    using step res by simp
  have "s ! j \<le> ms ! j \<and> (\<forall>u\<in>set (t # ts). sizes u ! j \<le> ms ! j) \<and>
            (ms ! j = s ! j \<or> (\<exists>u\<in>set (t # ts). ms ! j = sizes u ! j)) \<and>
            (\<not> diff ! j \<longrightarrow> \<not> df ! j \<and> s ! j = ms ! j \<and> (\<forall>u\<in>set (t # ts). sizes u ! j = ms ! j))"
    if j: "j < r" for j
  proof -
    have s': "?s' ! j = max (s ! j) (?ns ! j)" and df': "?df' ! j = (df ! j \<or> s ! j \<noteq> ?ns ! j)"
      using j Cons.prems(2) by simp_all
    from props j have p: "?s' ! j \<le> ms ! j" "\<forall>t\<in>set ts. sizes t ! j \<le> ms ! j"
      "ms ! j = ?s' ! j \<or> (\<exists>t\<in>set ts. ms ! j = sizes t ! j)"
      "\<not> diff ! j \<longrightarrow> \<not> ?df' ! j \<and> ?s' ! j = ms ! j \<and> (\<forall>t\<in>set ts. sizes t ! j = ms ! j)"
      by blast+
    have a: "s ! j \<le> ms ! j" "?ns ! j \<le> ms ! j" using p(1) unfolding s' by simp_all
    have b: "ms ! j = s ! j \<or> (\<exists>u\<in>set (t # ts). ms ! j = sizes u ! j)"
      using p(3) unfolding s' by (auto simp: max_def split: if_splits)
    have c: "\<not> diff ! j \<longrightarrow> \<not> df ! j \<and> s ! j = ms ! j \<and> (\<forall>u\<in>set (t # ts). sizes u ! j = ms ! j)"
      using p(4) unfolding s' df' by auto
    show ?thesis using a b c p(2) by simp
  qed
  with run len show ?case by blast
qed

lemma measure_array_max_dim_props:
  assumes "batch \<noteq> []" and "\<forall>t\<in>set batch. length (sizes t) = r"
  shows "\<exists>ms diff. measure_array_max_dim batch = Inr (ms, diff) \<and> length ms = r \<and> length diff = r \<and>
    (\<forall>j<r. (\<forall>t\<in>set batch. sizes t ! j \<le> ms ! j) \<and> (\<exists>t\<in>set batch. ms ! j = sizes t ! j) \<and>
            (\<not> diff ! j \<longrightarrow> (\<forall>t\<in>set batch. sizes t ! j = ms ! j)))"
proof -
  from assms(1) obtain b0 rest where batch: "batch = b0 # rest" by (cases batch) auto
  have r0: "length (sizes b0) = r" and rr: "\<forall>t\<in>set rest. length (sizes t) = r"
    using assms(2) by (simp_all add: batch)
  from measure_loop_props [OF rr r0, of "replicate r False"]
  obtain ms diff where res: "measure_loop (sizes b0, replicate r False) rest = Inr (ms, diff)"
    and len: "length ms = r" "length diff = r"
    and props: "\<forall>j<r. sizes b0 ! j \<le> ms ! j \<and> (\<forall>t\<in>set rest. sizes t ! j \<le> ms ! j) \<and>
            (ms ! j = sizes b0 ! j \<or> (\<exists>t\<in>set rest. ms ! j = sizes t ! j)) \<and>
            (\<not> diff ! j \<longrightarrow> \<not> replicate r False ! j \<and> sizes b0 ! j = ms ! j \<and>
               (\<forall>t\<in>set rest. sizes t ! j = ms ! j))"
    by auto
  have "measure_array_max_dim batch = Inr (ms, diff)"
    using res by (simp add: measure_array_max_dim_def batch r0)
  moreover have "\<forall>j<r. (\<forall>t\<in>set batch. sizes t ! j \<le> ms ! j) \<and> (\<exists>t\<in>set batch. ms ! j = sizes t ! j) \<and>
            (\<not> diff ! j \<longrightarrow> (\<forall>t\<in>set batch. sizes t ! j = ms ! j))"
    using props unfolding batch by auto
  ultimately show ?thesis using len by blast
qed

subsection \<open>The view of one element\<close>

lemma in_bounds_mono:
  "list_all2 (<) idx sd \<Longrightarrow> length sd = length ms \<Longrightarrow> \<forall>j<length ms. sd ! j \<le> (ms ! j :: nat) \<Longrightarrow>
   list_all2 (<) idx ms"
  unfolding list_all2_conv_all_nth using less_le_trans by metis

lemma broadcastable_refl: "broadcastable s s"
  by (simp add: broadcastable_def list_all2_same)

lemma broadcast_index_same:
  "list_all2 (<) idx s \<Longrightarrow> broadcast_index s idx = idx"
proof -
  assume b: "list_all2 (<) idx s"
  then have len: "length idx = length s" by (rule list_all2_lengthD)
  have "map2 (\<lambda>s i. if s = 1 then 0 else i) s idx = idx"
  proof (rule nth_equalityI)
    show "length (map2 (\<lambda>s i. if s = 1 then 0 else i) s idx) = length idx"
      using len by simp
  next
    fix k assume "k < length (map2 (\<lambda>s i. if s = 1 then 0 else i) s idx)"
    then have k: "k < length idx" "k < length s" by simp_all
    with b have "idx ! k < s ! k" by (simp add: list_all2_conv_all_nth)
    then show "map2 (\<lambda>s i. if s = 1 then 0 else i) s idx ! k = idx ! k"
      using k by auto
  qed
  then show ?thesis by (simp add: broadcast_index_def len)
qed

lemma narrow_different_enumerate:
  assumes "length (sizes d) = r" and "length (sizes t) = r" and "k + length df = r"
    and "\<forall>j<r. sizes d ! j \<le> sizes t ! j"
  shows "narrow_different t d (enumerate k df) =
           Inr (t\<lparr>sizes := map (\<lambda>j. if k \<le> j \<and> df ! (j - k) then sizes d ! j else sizes t ! j) [0..<r]\<rparr>)"
  using assms
proof (induction df arbitrary: k t)
  case Nil
  have "map (\<lambda>j. if k \<le> j \<and> [] ! (j - k) then sizes d ! j else sizes t ! j) [0..<r] = sizes t"
    using Nil.prems by (auto intro!: nth_equalityI)
  then show ?case by simp
next
  case (Cons diff df)
  have kr: "k < r" using Cons.prems(3) by simp
  have nth: "(diff # df) ! (j - k) = (if j \<le> k then diff else df ! (j - Suc k))" for j
    by (simp add: nth_Cons')
  show ?case
  proof (cases diff)
    case False
    have "narrow_different t d (enumerate (Suc k) df) =
           Inr (t\<lparr>sizes := map (\<lambda>j. if Suc k \<le> j \<and> df ! (j - Suc k) then sizes d ! j else sizes t ! j) [0..<r]\<rparr>)"
      using Cons.IH [of t "Suc k"] Cons.prems by simp
    moreover have "map (\<lambda>j. if Suc k \<le> j \<and> df ! (j - Suc k) then sizes d ! j else sizes t ! j) [0..<r]
        = map (\<lambda>j. if k \<le> j \<and> (diff # df) ! (j - k) then sizes d ! j else sizes t ! j) [0..<r]"
      unfolding nth using False by auto
    ultimately show ?thesis using False by simp
  next
    case True
    let ?t' = "t\<lparr>sizes := (sizes t)[k := sizes d ! k]\<rparr>"
    have nar: "narrow t (int k) 0 (sizes d ! k) = Inr ?t'"
      using kr Cons.prems(1,2,4) by (auto simp: narrow_def wrap_dim_def)
    have le': "\<forall>j<r. sizes d ! j \<le> sizes ?t' ! j"
      using kr Cons.prems(2,4) by (auto simp: nth_list_update)
    have "narrow_different ?t' d (enumerate (Suc k) df) =
           Inr (?t'\<lparr>sizes := map (\<lambda>j. if Suc k \<le> j \<and> df ! (j - Suc k) then sizes d ! j else sizes ?t' ! j) [0..<r]\<rparr>)"
      using Cons.IH [of ?t' "Suc k"] Cons.prems(1,2,3) le' by simp
    moreover have "map (\<lambda>j. if Suc k \<le> j \<and> df ! (j - Suc k) then sizes d ! j else sizes ?t' ! j) [0..<r]
        = map (\<lambda>j. if k \<le> j \<and> (diff # df) ! (j - k) then sizes d ! j else sizes t ! j) [0..<r]"
      unfolding nth using True kr Cons.prems(2) by (auto simp: nth_list_update)
    ultimately show ?thesis using True kr nar Cons.prems(1) by simp
  qed
qed

lemma narrow_different_all:
  assumes "length (sizes d) = r" and "length (sizes t) = r" and "length df = r"
    and "\<forall>j<r. sizes d ! j \<le> sizes t ! j"
    and "\<forall>j<r. \<not> df ! j \<longrightarrow> sizes d ! j = sizes t ! j"
  shows "narrow_different t d (enumerate 0 df) = Inr (t\<lparr>sizes := sizes d\<rparr>)"
proof -
  have "map (\<lambda>j. if 0 \<le> j \<and> df ! (j - 0) then sizes d ! j else sizes t ! j) [0..<r] = sizes d"
    using assms(1,5) by (auto intro!: nth_equalityI)
  then show ?thesis
    using narrow_different_enumerate [of d r t 0 df] assms by simp
qed

subsection \<open>One round of the merge\<close>

lemma length_contiguous [simp]: "length (contiguous ns) = length ns"
  by (induction ns) simp_all

lemma merge_step_writes:
  assumes b: "b \<le> r" and ms: "length ms = r"
    and shape: "sizes out = take b ms @ [n] @ drop b ms"
    and str: "length (strides out) = Suc r" and off: "offset out = 0"
    and i: "i < n" and rank: "length (sizes d) = r" and df: "length different = r"
    and le: "\<forall>j<r. sizes d ! j \<le> ms ! j"
    and same: "\<forall>j<r. \<not> different ! j \<longrightarrow> sizes d ! j = ms ! j"
  shows "merge_step (int b) different out (i, d) =
           Inr (out\<lparr>storage :=
                  fold (\<lambda>idx st. st[lin (take b idx @ [i] @ drop b idx) (strides out) := at d idx])
                    (indices (sizes d)) (storage out)\<rparr>)"
proof -
  let ?s = "take b ms @ [n] @ drop b ms"
  have len_s: "length (sizes out) = Suc r" using b ms by (simp add: shape)
  have sb: "sizes out ! b = n" using b ms by (simp add: shape nth_append)
  have dim: "slice_dim (int b) out = int b"
    using b len_s by (simp add: slice_dim_def)
  let ?v = "out\<lparr>offset := i * (strides out ! b), sizes := (sizes out)[b := 1]\<rparr>"
  have nar: "narrow out (int b) i 1 = Inr ?v"
    using b len_s sb i off by (auto simp: narrow_def wrap_dim_def)
  have drop_b: "take b ((sizes out)[b := 1]) @ drop (Suc b) ((sizes out)[b := 1]) = ms"
    using b ms by (simp add: shape)
  let ?o = "out\<lparr>offset := i * (strides out ! b), sizes := ms,
                 strides := take b (strides out) @ drop (Suc b) (strides out)\<rparr>"
  have sq: "squeeze ?v (int b) = Inr ?o"
    using b len_s drop_b by (simp add: squeeze_def wrap_dim_def)
  have nd: "narrow_different ?o d (enumerate 0 different) = Inr (?o\<lparr>sizes := sizes d\<rparr>)"
    by (rule narrow_different_all [where r = r]) (use rank ms df le same in simp_all)
  let ?w = "?o\<lparr>sizes := sizes d\<rparr>"
  have pos: "offset ?w + lin idx (strides ?w) = lin (take b idx @ [i] @ drop b idx) (strides out)"
    if "idx \<in> set (indices (sizes d))" for idx
  proof -
    from that have "list_all2 (<) idx (sizes d)" by (simp add: set_indices)
    then have "length idx = r" using rank by (auto dest: list_all2_lengthD)
    then show ?thesis using lin_insert [of b idx "strides out" i] b str by simp
  qed
  have val: "at d (broadcast_index (sizes d) idx) = at d idx"
    if "idx \<in> set (indices (sizes d))" for idx
    using that by (simp add: set_indices broadcast_index_same)
  have "fold (\<lambda>idx st. st[offset ?w + lin idx (strides ?w) := at d (broadcast_index (sizes d) idx)])
           (indices (sizes d)) (storage out)
        = fold (\<lambda>idx st. st[lin (take b idx @ [i] @ drop b idx) (strides out) := at d idx])
           (indices (sizes d)) (storage out)"
    by (rule fold_cong) (use pos val in auto)
  then have cp: "copy_into ?w d = Inr (?w\<lparr>storage :=
        fold (\<lambda>idx st. st[lin (take b idx @ [i] @ drop b idx) (strides out) := at d idx])
           (indices (sizes d)) (storage out)\<rparr>)"
    by (simp add: copy_into_def broadcastable_refl)
  show ?thesis
    unfolding merge_step_def Let_def prod.case dim nar sum.case sq nd cp by simp
qed

subsection \<open>The loop over the batch\<close>

lemma merge_loop_cells:
  assumes b: "b \<le> r" and ms: "length ms = r"
    and shape: "sizes out = take b ms @ [n] @ drop b ms"
    and str: "strides out = contiguous (sizes out)" and off: "offset out = 0"
    and store: "length (storage out) = prod_list (sizes out)"
    and df: "length different = r"
    and k: "k + length ds = n"
    and rank: "\<forall>d\<in>set ds. length (sizes d) = r"
    and le: "\<forall>d\<in>set ds. \<forall>j<r. sizes d ! j \<le> ms ! j"
    and same: "\<forall>d\<in>set ds. \<forall>j<r. \<not> different ! j \<longrightarrow> sizes d ! j = ms ! j"
  shows "\<exists>out'. merge_loop (int b) different out (enumerate k ds) = Inr out' \<and>
           sizes out' = sizes out \<and> strides out' = strides out \<and> offset out' = 0 \<and>
           length (storage out') = length (storage out) \<and>
           (\<forall>i<n. \<forall>idx. list_all2 (<) idx ms \<longrightarrow>
              storage out' ! lin (take b idx @ [i] @ drop b idx) (strides out) =
                (if k \<le> i \<and> list_all2 (<) idx (sizes (ds ! (i - k)))
                 then at (ds ! (i - k)) idx
                 else storage out ! lin (take b idx @ [i] @ drop b idx) (strides out)))"
  using shape str off store k rank le same
proof (induction ds arbitrary: k out)
  case Nil
  then show ?case by simp
next
  case (Cons d ds)
  let ?s = "take b ms @ [n] @ drop b ms"
  let ?cs = "contiguous ?s"
  let ?pos = "\<lambda>i idx. lin (take b idx @ [i] @ drop b idx) ?cs"
  have kn: "k < n" using Cons.prems(5) by simp
  have rd: "length (sizes d) = r" using Cons.prems(6) by simp
  have led: "\<forall>j<r. sizes d ! j \<le> ms ! j" using Cons.prems(7) by simp
  have samed: "\<forall>j<r. \<not> different ! j \<longrightarrow> sizes d ! j = ms ! j" using Cons.prems(8) by simp
  have lcs: "length (strides out) = Suc r"
    using b ms by (simp add: Cons.prems(1,2))
  let ?st1 = "fold (\<lambda>idx st. st[?pos k idx := at d idx]) (indices (sizes d)) (storage out)"
  let ?out1 = "out\<lparr>storage := ?st1\<rparr>"
  have step: "merge_step (int b) different out (k, d) = Inr ?out1"
    using merge_step_writes [OF b ms Cons.prems(1) lcs Cons.prems(3) kn rd df led samed]
    by (simp add: Cons.prems(1,2))
  \<comment> \<open>positions of cells inside the output\<close>
  have inb: "list_all2 (<) (take b idx @ [i] @ drop b idx) ?s"
    if "i < n" "list_all2 (<) idx ms" for i idx
    using that b ms by (intro insert_index_bounds) simp_all
  have to_ms: "list_all2 (<) idx ms" if "list_all2 (<) idx (sizes d)" for idx
    using that rd ms led by (intro in_bounds_mono [of idx "sizes d" ms]) simp_all
  have pos_less: "?pos i idx < length (storage out)" if "i < n" "list_all2 (<) idx ms" for i idx
    using lin_contiguous_less [OF inb [OF that]] by (simp add: Cons.prems(1,4))
  have pos_inj: "i = i' \<and> idx = idx'"
    if "i < n" "list_all2 (<) idx ms" "i' < n" "list_all2 (<) idx' ms" "?pos i idx = ?pos i' idx'"
    for i idx i' idx'
  proof -
    have "take b idx @ [i] @ drop b idx = take b idx' @ [i'] @ drop b idx'"
      using lin_contiguous_inj [OF inb [OF that(1,2)] inb [OF that(3,4)] that(5)] .
    moreover have "b \<le> length idx" "b \<le> length idx'"
      using that(2,4) b ms by (auto dest: list_all2_lengthD)
    ultimately show ?thesis by (rule insert_index_inj [rotated 2])
  qed
  \<comment> \<open>the cells after this round\<close>
  have cell1: "?st1 ! ?pos i idx =
                 (if i = k \<and> list_all2 (<) idx (sizes d) then at d idx else storage out ! ?pos i idx)"
    if "i < n" "list_all2 (<) idx ms" for i idx
  proof (cases "i = k \<and> list_all2 (<) idx (sizes d)")
    case True
    have "inj_on (?pos k) (set (indices (sizes d)))"
      unfolding inj_on_def set_indices using pos_inj [OF kn to_ms kn to_ms] by blast
    moreover have "idx \<in> set (indices (sizes d))" using True by (simp add: set_indices)
    moreover have "?pos k idx < length (storage out)" using pos_less [OF kn that(2)] .
    ultimately have "?st1 ! ?pos k idx = at d idx"
      by (rule fold_update_hit)
    then show ?thesis using True by simp
  next
    case False
    have "?pos i idx \<notin> ?pos k ` set (indices (sizes d))"
    proof
      assume "?pos i idx \<in> ?pos k ` set (indices (sizes d))"
      then obtain idx' where idx': "list_all2 (<) idx' (sizes d)" and eq: "?pos i idx = ?pos k idx'"
        by (auto simp: set_indices)
      from pos_inj [OF that kn to_ms [OF idx'] eq] idx' False show False by simp
    qed
    then have "?st1 ! ?pos i idx = storage out ! ?pos i idx"
      by (rule fold_update_other)
    then show ?thesis by (simp only: False if_False)
  qed
  \<comment> \<open>the remaining rounds\<close>
  have "\<exists>out'. merge_loop (int b) different ?out1 (enumerate (Suc k) ds) = Inr out' \<and>
           sizes out' = sizes ?out1 \<and> strides out' = strides ?out1 \<and> offset out' = 0 \<and>
           length (storage out') = length (storage ?out1) \<and>
           (\<forall>i<n. \<forall>idx. list_all2 (<) idx ms \<longrightarrow>
              storage out' ! lin (take b idx @ [i] @ drop b idx) (strides ?out1) =
                (if Suc k \<le> i \<and> list_all2 (<) idx (sizes (ds ! (i - Suc k)))
                 then at (ds ! (i - Suc k)) idx
                 else storage ?out1 ! lin (take b idx @ [i] @ drop b idx) (strides ?out1)))"
    by (rule Cons.IH) (use Cons.prems in simp_all)
  then obtain out' where run: "merge_loop (int b) different ?out1 (enumerate (Suc k) ds) = Inr out'"
    and geo: "sizes out' = sizes out" "strides out' = strides out" "offset out' = 0"
      "length (storage out') = length (storage out)"
    and cells: "\<forall>i<n. \<forall>idx. list_all2 (<) idx ms \<longrightarrow>
              storage out' ! ?pos i idx =
                (if Suc k \<le> i \<and> list_all2 (<) idx (sizes (ds ! (i - Suc k)))
                 then at (ds ! (i - Suc k)) idx
                 else ?st1 ! ?pos i idx)"
    by (auto simp: Cons.prems(1,2))
  have "storage out' ! ?pos i idx =
          (if k \<le> i \<and> list_all2 (<) idx (sizes ((d # ds) ! (i - k)))
           then at ((d # ds) ! (i - k)) idx
           else storage out ! ?pos i idx)"
    if "i < n" "list_all2 (<) idx ms" for i idx
  proof -
    consider "i < k" | "i = k" | "Suc k \<le> i" by linarith
    then show ?thesis
    proof cases
      case 1
      then show ?thesis using cells that cell1 [OF that] by simp
    next
      case 2
      then show ?thesis using cells that cell1 [OF that] by simp
    next
      case 3
      then have nth: "(d # ds) ! (i - k) = ds ! (i - Suc k)"
        by (simp add: nth_Cons' Suc_le_eq)
      from 3 have "i \<noteq> k" by simp
      then show ?thesis using 3 cells that cell1 [OF that] nth by simp
    qed
  qed
  moreover have "merge_loop (int b) different out (enumerate k (d # ds)) = Inr out'"
    using step run by simp
  ultimately show ?case using geo by (simp add: Cons.prems(1,2))
qed

subsection \<open>Shapes during the merge\<close>

lemma measure_loop_length:
  "measure_loop (s, df) ts = Inr (ms, diff) \<Longrightarrow> length ms = length s"
proof (induction ts arbitrary: s df)
  case Nil
  then show ?case by simp
next
  case (Cons t ts)
  then show ?case
    by (fastforce simp: measure_step_def split: if_splits)
qed

lemma measure_array_max_dim_length:
  "measure_array_max_dim batch = Inr (ms, diff) \<Longrightarrow>
   batch \<noteq> [] \<and> length ms = length (sizes (hd batch))"
  by (auto simp: measure_array_max_dim_def split: list.splits dest: measure_loop_length)

lemma merge_step_sizes:
  "merge_step batch_dim different out p = Inr out' \<Longrightarrow> sizes out' = sizes out"
  by (auto simp: merge_step_def Let_def split: prod.splits sum.splits)

subsection \<open>The merged array\<close>

lemma out_shape_nat: "out_shape (int b) n ms = take b ms @ [n] @ drop b ms"
  by (simp add: out_shape_def slice_to_def slice_from_def)

lemma length_out_shape: "length (out_shape batch_dim n ms) = Suc (length ms)"
  by (auto simp: out_shape_def slice_to_def slice_from_def)

lemma merge_var_len_array_cells:
  fixes pad :: "'a::zero option"
  assumes ne: "batch \<noteq> []" and rank: "\<forall>t\<in>set batch. length (sizes t) = r" and b: "b \<le> r"
  shows "\<exists>ms diff out.
           measure_array_max_dim batch = Inr (ms, diff) \<and> length ms = r \<and>
           (\<forall>j<r. ms ! j = Max ((\<lambda>t. sizes t ! j) ` set batch)) \<and>
           merge_var_len_array (int b) pad batch = Inr out \<and>
           sizes out = take b ms @ [length batch] @ drop b ms \<and>
           (\<forall>i<length batch. \<forall>idx. list_all2 (<) idx ms \<longrightarrow>
              at out (take b idx @ [i] @ drop b idx) =
                (if list_all2 (<) idx (sizes (batch ! i)) then at (batch ! i) idx
                 else (case pad of Some p \<Rightarrow> p | None \<Rightarrow> 0)))"
proof -
  let ?n = "length batch"
  let ?padv = "case pad of Some p \<Rightarrow> p | None \<Rightarrow> 0"
  from measure_array_max_dim_props [OF ne rank]
  obtain ms diff where meas: "measure_array_max_dim batch = Inr (ms, diff)"
    and len: "length ms = r" "length diff = r"
    and props: "\<forall>j<r. (\<forall>t\<in>set batch. sizes t ! j \<le> ms ! j) \<and> (\<exists>t\<in>set batch. ms ! j = sizes t ! j) \<and>
            (\<not> diff ! j \<longrightarrow> (\<forall>t\<in>set batch. sizes t ! j = ms ! j))"
    by blast
  let ?s = "take b ms @ [?n] @ drop b ms"
  let ?out = "new_out pad ?s"
  have mx: "ms ! j = Max ((\<lambda>t. sizes t ! j) ` set batch)" if "j < r" for j
  proof (rule Max_eqI [symmetric])
    show "finite ((\<lambda>t. sizes t ! j) ` set batch)" by simp
    from props that have ub: "\<forall>t\<in>set batch. sizes t ! j \<le> ms ! j"
      and att: "\<exists>t\<in>set batch. ms ! j = sizes t ! j"
      by blast+
    show "y \<le> ms ! j" if "y \<in> (\<lambda>t. sizes t ! j) ` set batch" for y
    proof -
      from that obtain t where "t \<in> set batch" "y = sizes t ! j" by (rule imageE)
      with ub show ?thesis by simp
    qed
    from att obtain t where "t \<in> set batch" "ms ! j = sizes t ! j" by (rule bexE)
    then show "ms ! j \<in> (\<lambda>t. sizes t ! j) ` set batch" by (rule rev_image_eqI)
  qed
  have "\<exists>out'. merge_loop (int b) diff ?out (enumerate 0 batch) = Inr out' \<and>
           sizes out' = sizes ?out \<and> strides out' = strides ?out \<and> offset out' = 0 \<and>
           length (storage out') = length (storage ?out) \<and>
           (\<forall>i<?n. \<forall>idx. list_all2 (<) idx ms \<longrightarrow>
              storage out' ! lin (take b idx @ [i] @ drop b idx) (strides ?out) =
                (if 0 \<le> i \<and> list_all2 (<) idx (sizes (batch ! (i - 0)))
                 then at (batch ! (i - 0)) idx
                 else storage ?out ! lin (take b idx @ [i] @ drop b idx) (strides ?out)))"
  proof (rule merge_loop_cells [where r = r])
    show "b \<le> r" by (rule b)
    show "length ms = r" by (rule len(1))
    show "sizes ?out = take b ms @ [?n] @ drop b ms" by (simp add: new_out_def)
    show "strides ?out = contiguous (sizes ?out)" by (simp add: new_out_def)
    show "offset ?out = 0" by (simp add: new_out_def)
    show "length (storage ?out) = prod_list (sizes ?out)" by (simp add: new_out_def)
    show "length diff = r" by (rule len(2))
    show "0 + length batch = ?n" by simp
    show "\<forall>d\<in>set batch. length (sizes d) = r" by (rule rank)
    show "\<forall>d\<in>set batch. \<forall>j<r. sizes d ! j \<le> ms ! j" using props by simp
    show "\<forall>d\<in>set batch. \<forall>j<r. \<not> diff ! j \<longrightarrow> sizes d ! j = ms ! j" using props by simp
  qed
  then obtain out where run: "merge_loop (int b) diff ?out (enumerate 0 batch) = Inr out"
    and geo0: "sizes out = sizes ?out" "strides out = strides ?out" "offset out = 0"
    and cells0: "\<forall>i<?n. \<forall>idx. list_all2 (<) idx ms \<longrightarrow>
              storage out ! lin (take b idx @ [i] @ drop b idx) (strides ?out) =
                (if 0 \<le> i \<and> list_all2 (<) idx (sizes (batch ! (i - 0)))
                 then at (batch ! (i - 0)) idx
                 else storage ?out ! lin (take b idx @ [i] @ drop b idx) (strides ?out))"
    by blast
  have so: "strides ?out = contiguous ?s" "sizes ?out = ?s" by (simp_all add: new_out_def)
  have geo: "sizes out = ?s" "strides out = contiguous ?s" "offset out = 0"
    using geo0 so by simp_all
  have cells: "\<forall>i<?n. \<forall>idx. list_all2 (<) idx ms \<longrightarrow>
              storage out ! lin (take b idx @ [i] @ drop b idx) (contiguous ?s) =
                (if list_all2 (<) idx (sizes (batch ! i)) then at (batch ! i) idx
                 else storage ?out ! lin (take b idx @ [i] @ drop b idx) (contiguous ?s))"
    using cells0 unfolding so by simp
  have merged: "merge_var_len_array (int b) pad batch = Inr out"
    using meas run by (simp add: merge_var_len_array_def out_shape_nat)
  have "at out (take b idx @ [i] @ drop b idx) =
          (if list_all2 (<) idx (sizes (batch ! i)) then at (batch ! i) idx else ?padv)"
    if i: "i < ?n" and idx: "list_all2 (<) idx ms" for i idx
  proof -
    have "list_all2 (<) (take b idx @ [i] @ drop b idx) ?s"
      using i idx b len by (intro insert_index_bounds) simp_all
    then have "lin (take b idx @ [i] @ drop b idx) (contiguous ?s) < prod_list ?s"
      by (rule lin_contiguous_less)
    then have "storage ?out ! lin (take b idx @ [i] @ drop b idx) (contiguous ?s) = ?padv"
      by (simp add: new_out_def)
    then show ?thesis using cells i idx by (simp add: at_def geo)
  qed
  then have all: "\<forall>i<?n. \<forall>idx. list_all2 (<) idx ms \<longrightarrow>
              at out (take b idx @ [i] @ drop b idx) =
                (if list_all2 (<) idx (sizes (batch ! i)) then at (batch ! i) idx else ?padv)"
    by blast
  have mxall: "\<forall>j<r. ms ! j = Max ((\<lambda>t. sizes t ! j) ` set batch)" using mx by blast
  show ?thesis
    by (intro exI conjI) (rule meas, rule len(1), rule mxall, rule merged, rule geo(1), rule all)
qed

subsection \<open>Scalars and a batch dimension beyond their rank\<close>

lemma merge_loop_rank0:
  "0 \<le> batch_dim \<Longrightarrow> length (sizes out) = 1 \<Longrightarrow>
   merge_loop batch_dim different out ps = merge_loop 0 different out ps"
proof (induction ps arbitrary: out)
  case Nil
  show ?case by simp
next
  case (Cons p ps)
  have dim: "slice_dim batch_dim out = slice_dim 0 out"
    using Cons.prems by (simp add: slice_dim_def)
  have step: "merge_step batch_dim different out p = merge_step 0 different out p"
    by (simp add: merge_step_def dim)
  show ?case
  proof (cases "merge_step 0 different out p")
    case (Inl e)
    then show ?thesis by (simp add: step)
  next
    case (Inr out')
    then have "sizes out' = sizes out" by (rule merge_step_sizes)
    then have "length (sizes out') = 1" using Cons.prems(2) by simp
    then show ?thesis using Cons.IH [OF Cons.prems(1)] Inr by (simp add: step)
  qed
qed

lemma merge_var_len_array_rank0:
  assumes "0 \<le> batch_dim" and "batch \<noteq> []" and "sizes (hd batch) = []"
  shows "merge_var_len_array batch_dim pad batch = merge_var_len_array 0 pad batch"
proof (cases "measure_array_max_dim batch")
  case (Inl e)
  then show ?thesis by (simp add: merge_var_len_array_def)
next
  case (Inr res)
  obtain ms diff where res: "res = (ms, diff)" by (cases res)
  from Inr have "length ms = length (sizes (hd batch))"
    unfolding res by (simp add: measure_array_max_dim_length)
  then have ms: "ms = []" using assms(3) by simp
  have shape: "out_shape batch_dim (length batch) [] = [length batch]" for batch_dim
    by (simp add: out_shape_def slice_to_def slice_from_def)
  have "merge_loop batch_dim diff (new_out pad [length batch]) (enumerate 0 batch)
        = merge_loop 0 diff (new_out pad [length batch]) (enumerate 0 batch)"
    using assms(1) by (rule merge_loop_rank0) (simp add: new_out_def)
  then show ?thesis
    by (simp add: merge_var_len_array_def Inr res ms shape)
qed

subsection \<open>Every element is found again in the merged array\<close>

text \<open>
  C1, as the code has it. For a non-empty batch of tensors of one rank \<open>r\<close> and a batch
  dimension \<open>0 \<le> batch_dim \<le> r\<close> (or any \<open>batch_dim \<ge> 0\<close> when the elements are scalars),
  \<open>_merge_var_len_array\<close> returns a tensor whose shape is the elementwise maximum \<open>ms\<close> of the
  shapes with the batch size inserted at position \<open>batch_dim\<close>. The cell at batch index \<open>i\<close>
  and position \<open>idx\<close> holds the value of element \<open>i\<close> at \<open>idx\<close> when \<open>idx\<close> lies within the
  shape of element \<open>i\<close>, and otherwise the padding value (\<open>ignore_symbol\<close>, or 0 when it is
  \<open>None\<close>). The sizes may differ in any number of dimensions.
\<close>

theorem merge_recovers_elements:
  fixes pad :: "'a::zero option"
  assumes ne: "batch \<noteq> []" and rank: "\<forall>t\<in>set batch. length (sizes t) = r"
    and lo: "0 \<le> batch_dim" and hi: "batch_dim \<le> int r \<or> r = 0"
  shows "\<exists>ms diff out.
           measure_array_max_dim batch = Inr (ms, diff) \<and> length ms = r \<and>
           (\<forall>j<r. ms ! j = Max ((\<lambda>t. sizes t ! j) ` set batch)) \<and>
           merge_var_len_array batch_dim pad batch = Inr out \<and>
           sizes out = take (nat batch_dim) ms @ [length batch] @ drop (nat batch_dim) ms \<and>
           (\<forall>i<length batch. \<forall>idx. list_all2 (<) idx ms \<longrightarrow>
              at out (take (nat batch_dim) idx @ [i] @ drop (nat batch_dim) idx) =
                (if list_all2 (<) idx (sizes (batch ! i)) then at (batch ! i) idx
                 else (case pad of Some p \<Rightarrow> p | None \<Rightarrow> 0)))"
proof (cases "batch_dim \<le> int r")
  case True
  then have "nat batch_dim \<le> r" by simp
  from merge_var_len_array_cells [OF ne rank this, of pad] lo
  show ?thesis by simp
next
  case False
  with hi have r0: "r = 0" by simp
  have "hd batch \<in> set batch" using ne by simp
  with rank r0 have "sizes (hd batch) = []" by simp
  with lo ne have eq: "merge_var_len_array batch_dim pad batch = merge_var_len_array 0 pad batch"
    by (rule merge_var_len_array_rank0)
  have "(0::nat) \<le> r" by simp
  from merge_var_len_array_cells [OF ne rank this, of pad]
  obtain ms diff out where meas: "measure_array_max_dim batch = Inr (ms, diff)"
    and len: "length ms = r"
    and merged: "merge_var_len_array 0 pad batch = Inr out"
    and shape: "sizes out = [length batch] @ ms"
    and cells: "\<forall>i<length batch. \<forall>idx. list_all2 (<) idx ms \<longrightarrow>
              at out ([i] @ idx) =
                (if list_all2 (<) idx (sizes (batch ! i)) then at (batch ! i) idx
                 else (case pad of Some p \<Rightarrow> p | None \<Rightarrow> 0))"
    by auto
  have ms: "ms = []" using len r0 by simp
  have "at out (take (nat batch_dim) idx @ [i] @ drop (nat batch_dim) idx) =
                (if list_all2 (<) idx (sizes (batch ! i)) then at (batch ! i) idx
                 else (case pad of Some p \<Rightarrow> p | None \<Rightarrow> 0))"
    if "i < length batch" "list_all2 (<) idx ms" for i idx
  proof -
    from that(2) have "idx = []" by (simp add: ms)
    then show ?thesis using cells that by simp
  qed
  then show ?thesis
    using meas len merged shape by (simp add: eq ms r0)
qed

text \<open>
  The theorem at two vectors of 3 and 5 values, merged along dimension 0 with padding 9:
  the result has shape \<open>(2, 5)\<close>, row 0 is \<open>1, 2, 3, 9, 9\<close> and row 1 is \<open>4, 5, 6, 7, 8\<close>.
\<close>

theorem merge_recovers_elements_witness:
  "\<exists>out. merge_var_len_array 0 (Some 9) [tensor_of [3] [1, 2, 3 :: int], tensor_of [5] [4, 5, 6, 7, 8]]
            = Inr out \<and>
         sizes out = [2, 5] \<and>
         at out [0, 0] = 1 \<and> at out [0, 1] = 2 \<and> at out [0, 2] = 3 \<and>
         at out [0, 3] = 9 \<and> at out [0, 4] = 9 \<and>
         at out [1, 0] = 4 \<and> at out [1, 1] = 5 \<and> at out [1, 2] = 6 \<and>
         at out [1, 3] = 7 \<and> at out [1, 4] = 8"
proof -
  let ?e0 = "tensor_of [3] [1, 2, 3 :: int]"
  let ?e1 = "tensor_of [5] [4, 5, 6, 7, 8 :: int]"
  let ?batch = "[?e0, ?e1]"
  have meas: "measure_array_max_dim ?batch = Inr ([5], [True])"
    by (simp add: measure_array_max_dim_def measure_step_def tensor_of_def)
  have "?batch \<noteq> []" and "\<forall>t\<in>set ?batch. length (sizes t) = 1"
    and "(0::int) \<le> 0" and "0 \<le> int 1 \<or> (1::nat) = 0"
    by (simp_all add: tensor_of_def)
  from merge_recovers_elements [OF this, of "Some 9"] meas
  obtain out where merged: "merge_var_len_array 0 (Some 9) ?batch = Inr out"
    and shape: "sizes out = [2, 5]"
    and cells: "\<forall>i<2. \<forall>idx. list_all2 (<) idx [5] \<longrightarrow>
              at out (i # idx) =
                (if list_all2 (<) idx (sizes (?batch ! i)) then at (?batch ! i) idx else 9)"
    by auto
  have c0: "at out [0, k] = (if k < 3 then at ?e0 [k] else 9)" if "k < 5" for k
    using cells that by (simp add: tensor_of_def)
  have c1: "at out [1, k] = at ?e1 [k]" if "k < 5" for k
    using cells that by (simp add: tensor_of_def)
  have e0: "at ?e0 [0] = 1" "at ?e0 [1] = 2" "at ?e0 [2] = 3"
    by (simp_all add: at_def tensor_of_def)
  have e1: "at ?e1 [0] = 4" "at ?e1 [1] = 5" "at ?e1 [2] = 6" "at ?e1 [3] = 7" "at ?e1 [4] = 8"
    by (simp_all add: at_def tensor_of_def)
  show ?thesis
    using merged shape c0 [of 0] c0 [of 1] c0 [of 2] c0 [of 3] c0 [of 4]
      c1 [of 0] c1 [of 1] c1 [of 2] c1 [of 3] c1 [of 4] e0 e1
    by simp
qed

text \<open>
  Without the bound on \<open>batch_dim\<close> the statement fails. With \<open>batch_dim = 2\<close> and vectors
  the output shape is \<open>max_size + [len(batch)]\<close>, the slice falls back to dimension 0, and
  the view of element \<open>i\<close> is row \<open>i\<close> of a tensor whose rows are as long as the batch: for
  vectors of 3 and 5 values \<open>narrow\<close> refuses to cut 3 cells out of a row of 2; for vectors
  of 1 and 2 values the merge returns, but the column of element 1 reads \<open>0, 9\<close> and its data
  is \<open>8, 9\<close>.
\<close>

theorem merge_batch_dim_counterexample:
  "merge_var_len_array 2 (Some 0) [tensor_of [3] [1, 2, 3 :: int], tensor_of [5] [4, 5, 6, 7, 8]]
     = Inl RuntimeError \<and>
   merge_var_len_array 2 (Some 0) [tensor_of [1] [7 :: int], tensor_of [2] [8, 9]]
     = Inr \<lparr>storage = [7, 0, 8, 9], offset = 0, sizes = [2, 2], strides = [2, 1]\<rparr> \<and>
   at \<lparr>storage = [7, 0, 8, 9 :: int], offset = 0, sizes = [2, 2], strides = [2, 1]\<rparr> [0, 1] = 0 \<and>
   at (tensor_of [2] [8, 9 :: int]) [0] = 8"
  by code_simp

subsection \<open>A vector of three and a vector of five\<close>

text \<open>
  C2. For a batch of a tensor of shape \<open>(3,)\<close> followed by one of shape \<open>(5,)\<close>, with
  \<open>ignore_symbol = 0\<close> and \<open>batch_dim = 1\<close>, the merge returns a tensor of shape \<open>(5, 2)\<close>;
  column 0 holds the three values of element 0 followed by two zeros, and column 1 holds the
  five values of element 1.
\<close>

theorem merge_three_and_five:
  fixes e0 e1 :: "'a::zero tensor"
  assumes "sizes e0 = [3]" and "sizes e1 = [5]"
  shows "\<exists>out. merge_var_len_array 1 (Some 0) [e0, e1] = Inr out \<and>
           sizes out = [5, 2] \<and>
           (\<forall>k<3. at out [k, 0] = at e0 [k]) \<and>
           at out [3, 0] = 0 \<and> at out [4, 0] = 0 \<and>
           (\<forall>k<5. at out [k, 1] = at e1 [k])"
proof -
  let ?batch = "[e0, e1]"
  have "?batch \<noteq> []" and "\<forall>t\<in>set ?batch. length (sizes t) = 1" and "(1::nat) \<le> 1"
    using assms by simp_all
  from merge_var_len_array_cells [OF this, of "Some 0"]
  obtain ms diff out where len: "length ms = 1"
    and mx: "ms ! 0 = Max ((\<lambda>t. sizes t ! 0) ` set ?batch)"
    and merged: "merge_var_len_array 1 (Some 0) ?batch = Inr out"
    and shape: "sizes out = take 1 ms @ [2] @ drop 1 ms"
    and cells: "\<forall>i<2. \<forall>idx. list_all2 (<) idx ms \<longrightarrow>
              at out (take 1 idx @ [i] @ drop 1 idx) =
                (if list_all2 (<) idx (sizes (?batch ! i)) then at (?batch ! i) idx else 0)"
    by auto
  from len obtain m where ms: "ms = [m]" by (cases ms) auto
  from mx have m: "m = 5" using assms by (simp add: ms)
  have c0: "at out [k, 0] = (if k < 3 then at e0 [k] else 0)" if "k < 5" for k
    using cells [rule_format, of 0 "[k]"] that assms by (simp add: ms m)
  have c1: "at out [k, 1] = at e1 [k]" if "k < 5" for k
    using cells [rule_format, of 1 "[k]"] that assms by (simp add: ms m)
  have col0: "\<forall>k<3. at out [k, 0] = at e0 [k]" using c0 by simp
  have zeros: "at out [3, 0] = 0" "at out [4, 0] = 0" using c0 [of 3] c0 [of 4] by simp_all
  have col1: "\<forall>k<5. at out [k, 1] = at e1 [k]" using c1 by simp
  have "sizes out = [5, 2]" using shape by (simp add: ms m)
  with merged col0 zeros col1 show ?thesis by blast
qed

text \<open>The theorem at the vectors \<open>1, 2, 3\<close> and \<open>4, 5, 6, 7, 8\<close>.\<close>

theorem merge_three_and_five_witness:
  "\<exists>out. merge_var_len_array 1 (Some 0) [tensor_of [3] [1, 2, 3 :: int], tensor_of [5] [4, 5, 6, 7, 8]]
            = Inr out \<and>
         sizes out = [5, 2] \<and>
         at out [0, 0] = 1 \<and> at out [1, 0] = 2 \<and> at out [2, 0] = 3 \<and>
         at out [3, 0] = 0 \<and> at out [4, 0] = 0 \<and>
         at out [0, 1] = 4 \<and> at out [1, 1] = 5 \<and> at out [2, 1] = 6 \<and>
         at out [3, 1] = 7 \<and> at out [4, 1] = 8"
proof -
  let ?e0 = "tensor_of [3] [1, 2, 3 :: int]"
  let ?e1 = "tensor_of [5] [4, 5, 6, 7, 8 :: int]"
  have "sizes ?e0 = [3]" and "sizes ?e1 = [5]" by (simp_all add: tensor_of_def)
  from merge_three_and_five [OF this]
  obtain out where merged: "merge_var_len_array 1 (Some 0) [?e0, ?e1] = Inr out"
    and shape: "sizes out = [5, 2]"
    and c0: "\<forall>k<3. at out [k, 0] = at ?e0 [k]"
    and z: "at out [3, 0] = 0" "at out [4, 0] = 0"
    and c1: "\<forall>k<5. at out [k, 1] = at ?e1 [k]"
    by blast
  have e0: "at ?e0 [0] = 1" "at ?e0 [1] = 2" "at ?e0 [2] = 3"
    by (simp_all add: at_def tensor_of_def)
  have e1: "at ?e1 [0] = 4" "at ?e1 [1] = 5" "at ?e1 [2] = 6" "at ?e1 [3] = 7" "at ?e1 [4] = 8"
    by (simp_all add: at_def tensor_of_def)
  have "at out [0, 0] = 1" "at out [1, 0] = 2" "at out [2, 0] = 3"
    using c0 e0 by simp_all
  moreover have "at out [0, 1] = 4" "at out [1, 1] = 5" "at out [2, 1] = 6"
      "at out [3, 1] = 7" "at out [4, 1] = 8"
    using c1 e1 by simp_all
  ultimately show ?thesis
    using merged shape z by blast
qed

subsection \<open>The dimension of the slice\<close>

lemma merge_loop_sizes:
  "merge_loop batch_dim different out ps = Inr out' \<Longrightarrow> sizes out' = sizes out"
proof (induction ps arbitrary: out)
  case Nil
  then show ?case by simp
next
  case (Cons p ps)
  then show ?case
    by (auto split: sum.splits dest: merge_step_sizes)
qed

lemma merge_loop_append:
  "merge_loop batch_dim different out (ps @ qs) =
     (case merge_loop batch_dim different out ps of
        Inl e \<Rightarrow> Inl e
      | Inr out' \<Rightarrow> merge_loop batch_dim different out' qs)"
  by (induction ps arbitrary: out) (auto split: sum.splits)

text \<open>
  C8. Let the loop of \<open>_merge_var_len_array\<close> have reached round \<open>k\<close> with the output \<open>out\<close>.
  The output still has one dimension more than the first element of the batch, so \<open>bdim\<close>
  is \<open>batch_dim\<close> when \<open>batch_dim\<close> is at most the rank of the elements and 0 otherwise: it
  differs from \<open>batch_dim\<close> exactly when \<open>batch_dim\<close> exceeds that rank. Round \<open>k\<close> cuts
  \<open>out.narrow(bdim, k, 1).squeeze(bdim)\<close> along that dimension, narrows the view to the
  element and copies the element into it; the merge is this round followed by the
  remaining ones.
\<close>

theorem slice_dim_fallback:
  fixes pad :: "'a::zero option"
  assumes meas: "measure_array_max_dim batch = Inr (max_size, different)"
    and k: "k < length batch"
    and reach: "merge_loop batch_dim different
                  (new_out pad (out_shape batch_dim (length batch) max_size))
                  (take k (enumerate 0 batch)) = Inr out"
  shows "length (sizes out) = Suc (length (sizes (hd batch))) \<and>
         slice_dim batch_dim out =
           (if batch_dim \<le> int (length (sizes (hd batch))) then batch_dim else 0) \<and>
         (slice_dim batch_dim out \<noteq> batch_dim) = (int (length (sizes (hd batch))) < batch_dim) \<and>
         merge_step batch_dim different out (k, batch ! k) =
           (case narrow out (if batch_dim \<le> int (length (sizes (hd batch))) then batch_dim else 0) k 1 of
              Inl e \<Rightarrow> Inl e
            | Inr v \<Rightarrow>
                (case squeeze v (if batch_dim \<le> int (length (sizes (hd batch))) then batch_dim else 0) of
                   Inl e \<Rightarrow> Inl e
                 | Inr this_o \<Rightarrow>
                     (case narrow_different this_o (batch ! k) (enumerate 0 different) of
                        Inl e \<Rightarrow> Inl e
                      | Inr this_o' \<Rightarrow>
                          (case copy_into this_o' (batch ! k) of
                             Inl e \<Rightarrow> Inl e
                           | Inr w \<Rightarrow> Inr (out\<lparr>storage := storage w\<rparr>))))) \<and>
         merge_var_len_array batch_dim pad batch =
           (case merge_step batch_dim different out (k, batch ! k) of
              Inl e \<Rightarrow> Inl e
            | Inr out' \<Rightarrow> merge_loop batch_dim different out' (drop (Suc k) (enumerate 0 batch)))"
proof -
  let ?out0 = "new_out pad (out_shape batch_dim (length batch) max_size)"
  from meas have len: "length max_size = length (sizes (hd batch))"
    by (simp add: measure_array_max_dim_length)
  have "sizes out = sizes ?out0" using reach by (rule merge_loop_sizes)
  then have rank: "length (sizes out) = Suc (length (sizes (hd batch)))"
    by (simp add: new_out_def length_out_shape len)
  have dim: "slice_dim batch_dim out =
           (if batch_dim \<le> int (length (sizes (hd batch))) then batch_dim else 0)"
    by (simp add: slice_dim_def rank)
  have exact: "(slice_dim batch_dim out \<noteq> batch_dim) = (int (length (sizes (hd batch))) < batch_dim)"
    unfolding dim by auto
  have step: "merge_step batch_dim different out (k, batch ! k) =
           (case narrow out (if batch_dim \<le> int (length (sizes (hd batch))) then batch_dim else 0) k 1 of
              Inl e \<Rightarrow> Inl e
            | Inr v \<Rightarrow>
                (case squeeze v (if batch_dim \<le> int (length (sizes (hd batch))) then batch_dim else 0) of
                   Inl e \<Rightarrow> Inl e
                 | Inr this_o \<Rightarrow>
                     (case narrow_different this_o (batch ! k) (enumerate 0 different) of
                        Inl e \<Rightarrow> Inl e
                      | Inr this_o' \<Rightarrow>
                          (case copy_into this_o' (batch ! k) of
                             Inl e \<Rightarrow> Inl e
                           | Inr w \<Rightarrow> Inr (out\<lparr>storage := storage w\<rparr>)))))"
    by (simp only: merge_step_def Let_def prod.case dim)
  have nth: "enumerate 0 batch ! k = (k, batch ! k)"
    using k by (simp add: nth_enumerate_eq)
  have "enumerate 0 batch =
          take k (enumerate 0 batch) @ enumerate 0 batch ! k # drop (Suc k) (enumerate 0 batch)"
    by (rule id_take_nth_drop) (use k in simp)
  then have parts: "enumerate 0 batch =
          take k (enumerate 0 batch) @ (k, batch ! k) # drop (Suc k) (enumerate 0 batch)"
    unfolding nth .
  have "merge_loop batch_dim different ?out0 (enumerate 0 batch) =
      merge_loop batch_dim different ?out0
        (take k (enumerate 0 batch) @ (k, batch ! k) # drop (Suc k) (enumerate 0 batch))"
    by (rule arg_cong [OF parts])
  also have "\<dots> = (case merge_step batch_dim different out (k, batch ! k) of
              Inl e \<Rightarrow> Inl e
            | Inr out' \<Rightarrow> merge_loop batch_dim different out' (drop (Suc k) (enumerate 0 batch)))"
    by (simp only: merge_loop_append reach sum.case merge_loop.simps)
  finally have loop: "merge_loop batch_dim different ?out0 (enumerate 0 batch) =
           (case merge_step batch_dim different out (k, batch ! k) of
              Inl e \<Rightarrow> Inl e
            | Inr out' \<Rightarrow> merge_loop batch_dim different out' (drop (Suc k) (enumerate 0 batch)))" .
  have run: "merge_var_len_array batch_dim pad batch =
           (case merge_step batch_dim different out (k, batch ! k) of
              Inl e \<Rightarrow> Inl e
            | Inr out' \<Rightarrow> merge_loop batch_dim different out' (drop (Suc k) (enumerate 0 batch)))"
    by (simp only: merge_var_len_array_def meas sum.case prod.case loop)
  from rank dim exact step run show ?thesis by (intro conjI)
qed

text \<open>
  The theorem at two vectors of 3 and 5 values. With \<open>batch_dim = 2\<close> the first round cuts
  along dimension 0, where the output is as long as the batch, and the merge fails; with
  \<open>batch_dim = 1\<close> the second round cuts along dimension 1 and writes column 1.
\<close>

theorem slice_dim_fallback_witness:
  "slice_dim 2 (new_out (Some (0::int)) (out_shape 2 2 [5])) = 0 \<and>
   merge_step 2 [True] (new_out (Some (0::int)) (out_shape 2 2 [5])) (0, tensor_of [3] [1, 2, 3])
     = Inl RuntimeError \<and>
   merge_var_len_array 2 (Some 0) [tensor_of [3] [1, 2, 3 :: int], tensor_of [5] [4, 5, 6, 7, 8]]
     = Inl RuntimeError \<and>
   slice_dim 1 \<lparr>storage = [1, 0, 2, 0, 3, 0, 0, 0, 0, 0 :: int], offset = 0, sizes = [5, 2],
                strides = [2, 1]\<rparr> = 1 \<and>
   merge_var_len_array 1 (Some 0) [tensor_of [3] [1, 2, 3 :: int], tensor_of [5] [4, 5, 6, 7, 8]]
     = Inr \<lparr>storage = [1, 4, 2, 5, 3, 6, 0, 7, 0, 8], offset = 0, sizes = [5, 2],
             strides = [2, 1]\<rparr>"
proof -
  let ?e0 = "tensor_of [3] [1, 2, 3 :: int]"
  let ?e1 = "tensor_of [5] [4, 5, 6, 7, 8 :: int]"
  let ?b = "[?e0, ?e1]"
  let ?o2 = "new_out (Some (0::int)) (out_shape 2 (length ?b) [5])"
  let ?o1 = "new_out (Some (0::int)) (out_shape 1 (length ?b) [5])"
  let ?out1 = "\<lparr>storage = [1, 0, 2, 0, 3, 0, 0, 0, 0, 0 :: int], offset = 0, sizes = [5, 2],
                strides = [2, 1]\<rparr>"
  have mb: "measure_array_max_dim ?b = Inr ([5], [True])"
    by (simp add: measure_array_max_dim_def measure_step_def tensor_of_def)
  have k0: "0 < length ?b" and k1: "1 < length ?b" by simp_all
  have r2: "merge_loop 2 [True] ?o2 (take 0 (enumerate 0 ?b)) = Inr ?o2" by simp
  have r1: "merge_loop 1 [True] ?o1 (take 1 (enumerate 0 ?b)) = Inr ?out1" by code_simp
  have s2: "merge_step 2 [True] ?o2 (0, ?e0) = Inl RuntimeError" by code_simp
  have s1: "merge_step 1 [True] ?out1 (1, ?e1)
              = Inr \<lparr>storage = [1, 4, 2, 5, 3, 6, 0, 7, 0, 8], offset = 0, sizes = [5, 2],
                      strides = [2, 1]\<rparr>"
    by code_simp
  note a = slice_dim_fallback [OF mb k0 r2]
  note b = slice_dim_fallback [OF mb k1 r1]
  have rk: "length (sizes ?e0) = 1" by (simp add: tensor_of_def)
  have "slice_dim 2 ?o2 = 0" using a by (simp add: rk)
  moreover have "merge_var_len_array 2 (Some 0) ?b = Inl RuntimeError"
    using a s2 by simp
  moreover have "slice_dim 1 ?out1 = 1" using b by (simp add: rk)
  moreover have "merge_var_len_array 1 (Some 0) ?b
      = Inr \<lparr>storage = [1, 4, 2, 5, 3, 6, 0, 7, 0, 8], offset = 0, sizes = [5, 2],
             strides = [2, 1]\<rparr>"
    using b s1 by simp
  ultimately show ?thesis using s2 by (simp add: numeral_2_eq_2)
qed

end
